theory Spec2Isabelle
  imports Main
begin

section \<open>The incident summarizer: redaction, note aggregation, session handlers\<close>

text \<open>
  The program is one Python script, \<^verbatim>\<open>streamlit_app.py\<close>. A Python \<^verbatim>\<open>str\<close> is a sequence
  of Unicode code points and is modelled as a list of natural numbers; \<open>str ''abc''\<close> is
  the text of an ASCII literal. Bytes are 8-bit characters. Dictionaries decoded from JSON
  are association lists with string members, looked up with \<^const>\<open>map_of\<close>.
\<close>

type_synonym str = "nat list"

abbreviation ord :: "char \<Rightarrow> nat" where
  "ord \<equiv> of_char"

abbreviation str :: "string \<Rightarrow> str" where
  "str \<equiv> map ord"

subsection \<open>Character classes\<close>

text \<open>
  On a \<^verbatim>\<open>str\<close> subject the module \<^verbatim>\<open>re\<close> reads \<^verbatim>\<open>\d\<close> as the decimal digits of
  Unicode (\<^verbatim>\<open>str.isdecimal\<close>) and \<^verbatim>\<open>\w\<close> as the alphanumeric characters
  (\<^verbatim>\<open>str.isalnum\<close>) and the underscore; \<^verbatim>\<open>\b\<close> is a change between \<^verbatim>\<open>\w\<close> and its
  complement. On the ASCII range these classes are fixed: the decimal digits are 0 to 9, the
  alphanumeric characters are the letters and the digits. Beyond ASCII they are read from
  the Unicode database of the interpreter, which is a parameter here: \<open>decimal\<close> holds of
  the decimal digits beyond ASCII, \<open>alphanumeric\<close> of the code points beyond ASCII that are
  alphabetic or numeric. A decimal digit is alphanumeric.
\<close>

record unicodedata =
  decimal :: "nat \<Rightarrow> bool"
  alphanumeric :: "nat \<Rightarrow> bool"

definition in_range :: "char \<Rightarrow> char \<Rightarrow> nat \<Rightarrow> bool" where
  "in_range lo hi c = (ord lo \<le> c \<and> c \<le> ord hi)"

definition ascii_digit :: "nat \<Rightarrow> bool" where
  "ascii_digit c = in_range (CHR ''0'') (CHR ''9'') c"

definition ascii_alpha :: "nat \<Rightarrow> bool" where
  "ascii_alpha c = (in_range (CHR ''A'') (CHR ''Z'') c \<or> in_range (CHR ''a'') (CHR ''z'') c)"

definition isdecimal :: "unicodedata \<Rightarrow> nat \<Rightarrow> bool" where
  "isdecimal U c = (if c < 128 then ascii_digit c else decimal U c)"

definition isalnum :: "unicodedata \<Rightarrow> nat \<Rightarrow> bool" where
  "isalnum U c =
     (if c < 128 then ascii_alpha c \<or> ascii_digit c else alphanumeric U c \<or> decimal U c)"

definition is_word :: "unicodedata \<Rightarrow> nat \<Rightarrow> bool" where
  "is_word U c = (isalnum U c \<or> c = ord CHR ''_'')"

text \<open>
  An excerpt of the Unicode database for the examples: the Latin-1 supplement (its
  letters, the superscript digits and the fractions are alphanumeric, none is a decimal
  digit) and the fullwidth digits U+FF10 to U+FF19, which are decimal digits.
\<close>

definition latin_fullwidth :: unicodedata where
  "latin_fullwidth =
     \<lparr>decimal = (\<lambda>c. 0xFF10 \<le> c \<and> c \<le> 0xFF19),
      alphanumeric = (\<lambda>c. c \<in> {0xAA, 0xB2, 0xB3, 0xB5, 0xB9, 0xBA, 0xBC, 0xBD, 0xBE} \<or>
         (0xC0 \<le> c \<and> c \<le> 0xFF \<and> c \<noteq> 0xD7 \<and> c \<noteq> 0xF7))\<rparr>"

subsection \<open>Regular expressions as the script uses them\<close>

text \<open>
  The three patterns of \<^verbatim>\<open>sensitive_patterns\<close> are sequences of word boundaries
  (\<^verbatim>\<open>\b\<close>) and of character classes under a greedy counted repetition
  (\<^verbatim>\<open>+\<close>, \<^verbatim>\<open>{2,}\<close>, \<^verbatim>\<open>{10}\<close>, a single character). A class is \<^verbatim>\<open>\d\<close> or a set of
  code points written out in the pattern. A position in the subject is the character
  before the cursor (if any) and the text from the cursor on.
\<close>

datatype cls = Digit | Chars "nat \<Rightarrow> bool"

datatype item = Bnd | Rep cls nat "nat option"

type_synonym pos = "nat option \<times> str"

fun in_cls :: "unicodedata \<Rightarrow> cls \<Rightarrow> nat \<Rightarrow> bool" where
  "in_cls U Digit c = isdecimal U c"
| "in_cls U (Chars f) c = f c"

fun word_before :: "unicodedata \<Rightarrow> nat option \<Rightarrow> bool" where
  "word_before U None = False"
| "word_before U (Some c) = is_word U c"

fun word_next :: "unicodedata \<Rightarrow> str \<Rightarrow> bool" where
  "word_next U [] = False"
| "word_next U (c # cs) = is_word U c"

definition at_boundary :: "unicodedata \<Rightarrow> pos \<Rightarrow> bool" where
  "at_boundary U p = (word_before U (fst p) \<noteq> word_next U (snd p))"

text \<open>
  \<open>runs cls p\<close> lists the positions reached from \<open>p\<close> by consuming 0, 1, 2, ... characters
  of the class; a greedy repetition tries the longest admissible run first and gives
  characters back one at a time.
\<close>

fun runs :: "(nat \<Rightarrow> bool) \<Rightarrow> pos \<Rightarrow> pos list" where
  "runs cls (prev, []) = [(prev, [])]"
| "runs cls (prev, c # cs) =
     (prev, c # cs) # (if cls c then runs cls (Some c, cs) else [])"

fun upto_max :: "nat option \<Rightarrow> 'a list \<Rightarrow> 'a list" where
  "upto_max None xs = xs"
| "upto_max (Some hi) xs = take (Suc hi) xs"

definition greedy :: "(nat \<Rightarrow> bool) \<Rightarrow> nat \<Rightarrow> nat option \<Rightarrow> pos \<Rightarrow> pos list" where
  "greedy cls lo hi p = rev (drop lo (upto_max hi (runs cls p)))"

text \<open>
  The backtracking matcher: every way the items can match from a position, as the list
  of end positions in the order the engine tries them. The engine's match is the first.
\<close>

fun match_items :: "unicodedata \<Rightarrow> item list \<Rightarrow> pos \<Rightarrow> pos list" where
  "match_items U [] p = [p]"
| "match_items U (Bnd # its) p = (if at_boundary U p then match_items U its p else [])"
| "match_items U (Rep cls lo hi # its) p =
     concat (map (match_items U its) (greedy (in_cls U cls) lo hi p))"

definition search_at :: "unicodedata \<Rightarrow> item list \<Rightarrow> pos \<Rightarrow> pos option" where
  "search_at U pat p = (case match_items U pat p of [] \<Rightarrow> None | q # _ \<Rightarrow> Some q)"

text \<open>
  \<^verbatim>\<open>re.sub(pattern, repl, text)\<close>: scan from the left; where the pattern matches, emit
  the replacement and go on after the match; elsewhere copy one character. None of the
  script's patterns matches the empty string (lemma \<open>match_items_consumes\<close> below), so the
  branch for an empty match is never taken by them; it emits the replacement and copies
  one character.
\<close>

function sub_from :: "unicodedata \<Rightarrow> item list \<Rightarrow> str \<Rightarrow> pos \<Rightarrow> str" where
  "sub_from U pat repl (prev, rest) =
     (case search_at U pat (prev, rest) of
        Some (prev', rest') \<Rightarrow>
          if length rest' < length rest then repl @ sub_from U pat repl (prev', rest')
          else repl @ (case rest of [] \<Rightarrow> [] | c # cs \<Rightarrow> c # sub_from U pat repl (Some c, cs))
      | None \<Rightarrow>
          (case rest of [] \<Rightarrow> [] | c # cs \<Rightarrow> c # sub_from U pat repl (Some c, cs)))"
  by pat_completeness auto
termination
  by (relation "measure (\<lambda>(U, pat, repl, p). length (snd p))") auto

definition re_sub :: "unicodedata \<Rightarrow> item list \<Rightarrow> str \<Rightarrow> str \<Rightarrow> str" where
  "re_sub U pat repl text = sub_from U pat repl (None, text)"

subsection \<open>The sensitive patterns and redaction\<close>

text \<open>
  The classes the patterns write out are ranges and members of ASCII: no code point
  beyond ASCII is in them.
\<close>

definition Lit :: "char \<Rightarrow> item" where
  "Lit x = Rep (Chars (\<lambda>c. c = ord x)) 1 (Some 1)"

definition local_cls :: "nat \<Rightarrow> bool" where
  "local_cls c = (ascii_alpha c \<or> ascii_digit c \<or> c \<in> set (str ''._%+-''))"

definition domain_cls :: "nat \<Rightarrow> bool" where
  "domain_cls c = (ascii_alpha c \<or> ascii_digit c \<or> c \<in> set (str ''.-''))"

definition tld_cls :: "nat \<Rightarrow> bool" where
  "tld_cls c = (ascii_alpha c \<or> c = ord CHR ''|'')"

text \<open>\<^verbatim>\<open>r'\b[A-Za-z0-9._%+-]+@[A-Za-z0-9.-]+\.[A-Z|a-z]{2,}\b'\<close>\<close>

definition email_pattern :: "item list" where
  "email_pattern =
     [Bnd, Rep (Chars local_cls) 1 None, Lit (CHR ''@''), Rep (Chars domain_cls) 1 None,
      Lit (CHR ''.''), Rep (Chars tld_cls) 2 None, Bnd]"

text \<open>\<^verbatim>\<open>r'\b\d{10}\b'\<close>\<close>

definition phone_pattern :: "item list" where
  "phone_pattern = [Bnd, Rep Digit 10 (Some 10), Bnd]"

text \<open>\<^verbatim>\<open>r'\b\d{3}-\d{2}-\d{4}\b'\<close>\<close>

definition ssn_pattern :: "item list" where
  "ssn_pattern =
     [Bnd, Rep Digit 3 (Some 3), Lit (CHR ''-''), Rep Digit 2 (Some 2), Lit (CHR ''-''),
      Rep Digit 4 (Some 4), Bnd]"

text \<open>The dictionary keeps its insertion order: email, phone, ssn.\<close>

definition sensitive_patterns :: "(str \<times> item list) list" where
  "sensitive_patterns =
     [(str ''email'', email_pattern), (str ''phone'', phone_pattern), (str ''ssn'', ssn_pattern)]"

definition redacted :: str where
  "redacted = str ''[REDACTED]''"

definition redact_sensitive_info :: "unicodedata \<Rightarrow> str \<Rightarrow> str" where
  "redact_sensitive_info U text =
     fold (\<lambda>pattern text. re_sub U pattern redacted text) (map snd sensitive_patterns) text"

subsection \<open>What a pattern accepts, and what a redaction is\<close>

text \<open>
  The meaning of a pattern, stated without the engine: \<open>accepts U its prev w rest\<close> holds
  when the items match exactly the word \<open>w\<close>, with the character \<open>prev\<close> before it (if any)
  and the text \<open>rest\<close> after it. A repetition takes a prefix of \<open>w\<close> made of characters of
  its class, of an admissible length; a boundary looks at the characters on both sides.
  Lemma \<open>match_items_accepts\<close> shows that the engine finds exactly these matches.
\<close>

fun last_of :: "nat option \<Rightarrow> str \<Rightarrow> nat option" where
  "last_of prev [] = prev"
| "last_of prev (c # cs) = Some (last (c # cs))"

fun within :: "nat \<Rightarrow> nat option \<Rightarrow> nat \<Rightarrow> bool" where
  "within lo None n = (lo \<le> n)"
| "within lo (Some hi) n = (lo \<le> n \<and> n \<le> hi)"

fun accepts :: "unicodedata \<Rightarrow> item list \<Rightarrow> nat option \<Rightarrow> str \<Rightarrow> str \<Rightarrow> bool" where
  "accepts U [] prev w rest = (w = [])"
| "accepts U (Bnd # its) prev w rest =
     (at_boundary U (prev, w @ rest) \<and> accepts U its prev w rest)"
| "accepts U (Rep cls lo hi # its) prev w rest =
     (\<exists>u v. w = u @ v \<and> list_all (in_cls U cls) u \<and> within lo hi (length u) \<and>
            accepts U its (last_of prev u) v rest)"

text \<open>
  An occurrence of a pattern somewhere in a text that follows \<open>prev\<close>, and an occurrence
  of one of several patterns that begins with the first character of the text.
\<close>

definition occurs :: "unicodedata \<Rightarrow> item list \<Rightarrow> nat option \<Rightarrow> str \<Rightarrow> bool" where
  "occurs U pat prev s = (\<exists>u w r. s = u @ w @ r \<and> accepts U pat (last_of prev u) w r)"

definition starts :: "unicodedata \<Rightarrow> item list set \<Rightarrow> nat option \<Rightarrow> str \<Rightarrow> bool" where
  "starts U P prev s = (\<exists>pat\<in>P. \<exists>w r. s = w @ r \<and> accepts U pat prev w r)"

text \<open>
  The words of the specification: \<open>redaction_of U thorough P prev s out\<close> holds when \<open>out\<close>
  is the text \<open>s\<close> (which follows \<open>prev\<close>) in which occurrences of patterns of \<open>P\<close>, one
  after the other, have each been replaced by exactly the token \<^verbatim>\<open>[REDACTED]\<close>, every
  other character being kept in its place. A thorough redaction keeps a character only
  where no occurrence of a pattern of \<open>P\<close> begins.
\<close>

inductive redaction_of ::
  "unicodedata \<Rightarrow> bool \<Rightarrow> item list set \<Rightarrow> nat option \<Rightarrow> str \<Rightarrow> str \<Rightarrow> bool"
  for U :: unicodedata and thorough :: bool and P :: "item list set" where
  rd_end: "redaction_of U thorough P prev [] []"
| rd_keep: "(thorough \<longrightarrow> \<not> starts U P prev (c # s)) \<Longrightarrow>
     redaction_of U thorough P (Some c) s out \<Longrightarrow>
     redaction_of U thorough P prev (c # s) (c # out)"
| rd_replace: "pat \<in> P \<Longrightarrow> w \<noteq> [] \<Longrightarrow> accepts U pat prev w s \<Longrightarrow>
     redaction_of U thorough P (Some (last w)) s out \<Longrightarrow>
     redaction_of U thorough P prev (w @ s) (redacted @ out)"

text \<open>
  What the three patterns have in common: a match is never empty, holds no square bracket,
  is not made of characters of the token alone, begins and ends at a word boundary, and
  is a match wherever the same word stands between two word boundaries.
\<close>

definition well_delimited :: "unicodedata \<Rightarrow> item list \<Rightarrow> bool" where
  "well_delimited U pat \<longleftrightarrow>
     (\<forall>prev w r. accepts U pat prev w r \<longrightarrow>
        w \<noteq> [] \<and> ord CHR ''['' \<notin> set w \<and> ord CHR '']'' \<notin> set w \<and> \<not> set w \<subseteq> set redacted \<and>
        at_boundary U (prev, w @ r) \<and> at_boundary U (Some (last w), r)) \<and>
     (\<forall>prev w r prev' r'. accepts U pat prev w r \<longrightarrow> at_boundary U (prev', w @ r') \<longrightarrow>
        at_boundary U (Some (last w), r') \<longrightarrow> accepts U pat prev' w r')"

subsection \<open>Values, remote services and what the user sees\<close>

text \<open>
  A record of the ticketing API is a JSON object with string members. A response of
  \<^verbatim>\<open>requests.get\<close> carries the status code, the body as \<^verbatim>\<open>response.json()\<close> reads it
  (\<open>NotJSON\<close> when that call raises; otherwise the object's \<^verbatim>\<open>result\<close> member, \<open>None\<close>
  when it is absent or null) and the raw bytes of \<^verbatim>\<open>response.content\<close>.
\<close>

type_synonym dict = "(str \<times> str) list"

type_synonym bytes = "char list"

datatype py_error = KeyError str | JSONDecodeError

datatype payload = NotJSON | JSONObject "dict list option"

record response =
  status_code :: int
  json :: payload
  content :: bytes

datatype request =
  IncidentTable str
| JournalTable str
| AttachmentTable str
| AttachmentFile str

text \<open>
  Everything the script does to the outside is logged in order: the HTTP requests, the
  calls of the two language-model endpoints (with their prompt) and the Streamlit output.
\<close>

datatype event =
  Get request
| CompletionCreate str
| ChatCompletionCreate str
| StError str
| StInfo str
| StWrite str dict
| StRerun

text \<open>
  The remote services are parameters: within one run of the script a request is answered by
  the response the function gives for it. A language-model call returns \<open>Inr\<close> the
  generated text or \<open>Inl\<close> the message of the exception it raised. The Unicode database
  of the interpreter that runs the script is a parameter as well.
\<close>

record env =
  requests_get :: "request \<Rightarrow> response"
  completion_create :: "str \<Rightarrow> str + str"
  chat_completion_create :: "str \<Rightarrow> str + str"
  decode_utf8_ignore :: "bytes \<Rightarrow> str"
  unicode_database :: unicodedata

definition getitem :: "dict \<Rightarrow> str \<Rightarrow> py_error + str" where
  "getitem d k = (case map_of d k of None \<Rightarrow> Inl (KeyError k) | Some v \<Rightarrow> Inr v)"

definition try_bind :: "py_error + 'a \<Rightarrow> ('a \<Rightarrow> py_error + 'b) \<Rightarrow> py_error + 'b" where
  "try_bind r f = (case r of Inl e \<Rightarrow> Inl e | Inr v \<Rightarrow> f v)"

definition state_mapping :: dict where
  "state_mapping =
     [(str ''1'', str ''New''), (str ''2'', str ''In Progress''), (str ''3'', str ''On Hold''), (str ''4'', str ''Awaiting Info''),
      (str ''5'', str ''Resolved''), (str ''6'', str ''Closed''), (str ''7'', str ''Canceled'')]"

subsection \<open>The ticketing client\<close>

definition fetch_incident_data ::
  "env \<Rightarrow> str \<Rightarrow> event list \<Rightarrow> (py_error + dict option) \<times> event list" where
  "fetch_incident_data E incident_number log =
     (let response = requests_get E (IncidentTable incident_number);
          log1 = log @ [Get (IncidentTable incident_number)]
      in if status_code response = 200 then
           (case json response of
              NotJSON \<Rightarrow> (Inl JSONDecodeError, log1)
            | JSONObject result \<Rightarrow>
                (case result of
                   Some (r # rs) \<Rightarrow> (Inr (Some r), log1)
                 | _ \<Rightarrow> (Inr None, log1)))
         else (Inr None, log1))"

definition fetch_incident_notes ::
  "env \<Rightarrow> str \<Rightarrow> event list \<Rightarrow> (py_error + dict list) \<times> event list" where
  "fetch_incident_notes E incident_sys_id log =
     (let response = requests_get E (JournalTable incident_sys_id);
          log1 = log @ [Get (JournalTable incident_sys_id)]
      in if status_code response = 200 then
           (case json response of
              NotJSON \<Rightarrow> (Inl JSONDecodeError, log1)
            | JSONObject result \<Rightarrow>
                (case result of
                   Some (r # rs) \<Rightarrow> (Inr (r # rs), log1)
                 | _ \<Rightarrow> (Inr [], log1)))
         else (Inr [], log1))"

definition fetch_attachments ::
  "env \<Rightarrow> str \<Rightarrow> event list \<Rightarrow> (py_error + dict list) \<times> event list" where
  "fetch_attachments E incident_sys_id log =
     (let response = requests_get E (AttachmentTable incident_sys_id);
          log1 = log @ [Get (AttachmentTable incident_sys_id)]
      in if status_code response = 200 then
           (case json response of
              NotJSON \<Rightarrow> (Inl JSONDecodeError, log1)
            | JSONObject result \<Rightarrow>
                (case result of
                   Some (r # rs) \<Rightarrow> (Inr (r # rs), log1)
                 | _ \<Rightarrow> (Inr [], log1)))
         else (Inr [], log1))"

definition fetch_attachment_data ::
  "env \<Rightarrow> str \<Rightarrow> event list \<Rightarrow> bytes option \<times> event list" where
  "fetch_attachment_data E attachment_sys_id log =
     (let response = requests_get E (AttachmentFile attachment_sys_id);
          log1 = log @ [Get (AttachmentFile attachment_sys_id)]
      in if status_code response = 200 then (Some (content response), log1)
         else (None, log1))"

subsection \<open>The summarization gateway\<close>

text \<open>
  \<^verbatim>\<open>str.strip()\<close> removes the white space of Unicode at both ends: the ASCII controls
  and the space, NEL, the no-break space and the spaces and separators of the general
  punctuation.
\<close>

definition is_space :: "nat \<Rightarrow> bool" where
  "is_space c =
     (c \<in> set [0x09, 0x0A, 0x0B, 0x0C, 0x0D, 0x1C, 0x1D, 0x1E, 0x1F, 0x20,
               0x85, 0xA0, 0x1680, 0x2028, 0x2029, 0x202F, 0x205F, 0x3000] \<or>
      (0x2000 \<le> c \<and> c \<le> 0x200A))"

definition strip :: "str \<Rightarrow> str" where
  "strip s = rev (dropWhile is_space (rev (dropWhile is_space s)))"

definition summarize_text ::
  "env \<Rightarrow> str \<Rightarrow> str \<Rightarrow> event list \<Rightarrow> str option \<times> event list" where
  "summarize_text E text task log =
     (let prompt = task @ str '' the following ticket notes:\<newline>\<newline>'' @ text @ str ''\<newline>\<newline>Result:'';
          log1 = log @ [CompletionCreate prompt]
      in case completion_create E prompt of
           Inr out \<Rightarrow> (Some (strip out), log1)
         | Inl msg \<Rightarrow> (None, log1 @ [StError (str ''An error occurred: '' @ msg)]))"

subsection \<open>The attachment summarizer\<close>

record attachment_summary =
  File_Name :: str
  Summary :: "str option"

definition image_extensions :: "str list" where
  "image_extensions = [str ''.png'', str ''.jpg'', str ''.jpeg'', str ''.gif'', str ''.bmp'', str ''.tiff'']"

text \<open>
  \<^verbatim>\<open>str.lower\<close> and \<^verbatim>\<open>str.endswith\<close>. The letters A to Z are lowered; the six
  extensions are ASCII, and the test compares the end of the name with them.
\<close>

definition lower_char :: "nat \<Rightarrow> nat" where
  "lower_char c = (if in_range (CHR ''A'') (CHR ''Z'') c then c + 32 else c)"

definition lower :: "str \<Rightarrow> str" where
  "lower s = map lower_char s"

definition endswith :: "str \<Rightarrow> str \<Rightarrow> bool" where
  "endswith s ext = (length ext \<le> length s \<and> drop (length s - length ext) s = ext)"

definition is_image :: "str \<Rightarrow> bool" where
  "is_image file_name = list_ex (\<lambda>ext. endswith (lower file_name) ext) image_extensions"

text \<open>The loop of \<^verbatim>\<open>summarize_attachments\<close>, with \<^verbatim>\<open>summaries\<close> as the accumulator.\<close>

fun summarize_attachments_loop ::
  "env \<Rightarrow> dict list \<Rightarrow> attachment_summary list \<Rightarrow> event list \<Rightarrow>
   (py_error + attachment_summary list) \<times> event list" where
  "summarize_attachments_loop E [] summaries log = (Inr summaries, log)"
| "summarize_attachments_loop E (attachment # attachments) summaries log =
     (case map_of attachment (str ''file_name'') of
        None \<Rightarrow> (Inl (KeyError (str ''file_name'')), log)
      | Some file_name \<Rightarrow>
          if \<not> is_image file_name then
            (case map_of attachment (str ''sys_id'') of
               Some sys_id \<Rightarrow>
                 (case fetch_attachment_data E sys_id log of
                    (Some (b # bs), log1) \<Rightarrow>
                      (let file_content = decode_utf8_ignore E (b # bs) in
                       case summarize_text E file_content (str ''Summarize'') log1 of
                         (summary, log2) \<Rightarrow>
                           summarize_attachments_loop E attachments
                             (summaries @ [\<lparr>File_Name = file_name, Summary = summary\<rparr>]) log2)
                  | (_, log1) \<Rightarrow> summarize_attachments_loop E attachments summaries log1)
             | None \<Rightarrow> summarize_attachments_loop E attachments summaries log)
          else summarize_attachments_loop E attachments summaries log)"

definition summarize_attachments ::
  "env \<Rightarrow> dict list \<Rightarrow> event list \<Rightarrow> (py_error + attachment_summary list) \<times> event list" where
  "summarize_attachments E attachments log = summarize_attachments_loop E attachments [] log"

subsection \<open>Note aggregation, the incident summary and the resolution steps\<close>

text \<open>
  The line of a note that has the three fields:
  \<^verbatim>\<open>f"{note_type} ({note['sys_created_on']}): {note['value']}\n"\<close>; \<open>None\<close> for a note that
  lacks one of them.
\<close>

definition note_content :: "dict \<Rightarrow> str option" where
  "note_content note =
     (case (map_of note (str ''element''), map_of note (str ''sys_created_on''), map_of note (str ''value'')) of
        (Some element, Some sys_created_on, Some val) \<Rightarrow>
          (let note_type = (if element = str ''work_notes'' then str ''Work Note'' else str ''Additional Comment'')
           in Some (note_type @ str '' ('' @ sys_created_on @ str ''): '' @ val @ str ''\<newline>''))
      | _ \<Rightarrow> None)"

text \<open>The loop of \<^verbatim>\<open>summarize_incident\<close>: its \<^verbatim>\<open>else\<close> branch writes a notice.\<close>

fun summarize_incident_notes ::
  "dict list \<Rightarrow> str \<Rightarrow> event list \<Rightarrow> str \<times> event list" where
  "summarize_incident_notes [] combined_notes log = (combined_notes, log)"
| "summarize_incident_notes (note # notes) combined_notes log =
     (case note_content note of
        Some line \<Rightarrow> summarize_incident_notes notes (combined_notes @ line) log
      | None \<Rightarrow>
          summarize_incident_notes notes combined_notes
            (log @ [StWrite (str ''Skipping note due to missing fields:'') note]))"

text \<open>The loop of \<^verbatim>\<open>fetch_detailed_resolution_steps\<close>: its \<^verbatim>\<open>if\<close> has no \<^verbatim>\<open>else\<close>.\<close>

fun resolution_steps_notes ::
  "dict list \<Rightarrow> str \<Rightarrow> event list \<Rightarrow> str \<times> event list" where
  "resolution_steps_notes [] combined_notes log = (combined_notes, log)"
| "resolution_steps_notes (note # notes) combined_notes log =
     (case note_content note of
        Some line \<Rightarrow> resolution_steps_notes notes (combined_notes @ line) log
      | None \<Rightarrow> resolution_steps_notes notes combined_notes log)"

definition build_incident_summary :: "dict \<Rightarrow> py_error + dict" where
  "build_incident_summary incident_data =
     try_bind (getitem incident_data (str ''number'')) (\<lambda>number.
     try_bind (getitem incident_data (str ''description'')) (\<lambda>description.
     try_bind (getitem incident_data (str ''priority'')) (\<lambda>priority.
     try_bind (getitem incident_data (str ''resolved_at'')) (\<lambda>resolved_at.
     try_bind (getitem incident_data (str ''opened_at'')) (\<lambda>opened_at.
     try_bind (getitem incident_data (str ''state'')) (\<lambda>state.
       Inr [(str ''Incident Number'', number), (str ''Description'', description),
            (str ''Priority'', priority), (str ''Resolved At'', resolved_at),
            (str ''Opened At'', opened_at),
            (str ''State'', (case map_of state_mapping state of
                          Some name \<Rightarrow> name | None \<Rightarrow> str ''Unknown State''))]))))))"

definition summarize_incident ::
  "env \<Rightarrow> dict \<Rightarrow> dict list \<Rightarrow> event list \<Rightarrow>
   (py_error + dict \<times> str option) \<times> event list" where
  "summarize_incident E incident_data incident_notes log =
     (case summarize_incident_notes incident_notes [] log of
        (combined_notes, log1) \<Rightarrow>
          (let cleaned_notes = redact_sensitive_info (unicode_database E) combined_notes in
           case summarize_text E cleaned_notes (str ''Summarize'') log1 of
             (summarized_notes, log2) \<Rightarrow>
               (case build_incident_summary incident_data of
                  Inl e \<Rightarrow> (Inl e, log2)
                | Inr incident_summary \<Rightarrow> (Inr (incident_summary, summarized_notes), log2))))"

text \<open>
  In \<^verbatim>\<open>fetch_detailed_resolution_steps\<close> the prompt is built inside the \<^verbatim>\<open>try\<close>, so a
  missing \<^verbatim>\<open>number\<close> is caught like a failure of the endpoint: \<^verbatim>\<open>str(KeyError('number'))\<close>
  is the key in quotes.
\<close>

definition fetch_detailed_resolution_steps ::
  "env \<Rightarrow> dict \<Rightarrow> dict list \<Rightarrow> event list \<Rightarrow> str option \<times> event list" where
  "fetch_detailed_resolution_steps E incident_data incident_notes log =
     (case resolution_steps_notes incident_notes [] log of
        (combined_notes, log1) \<Rightarrow>
          (let cleaned_notes = redact_sensitive_info (unicode_database E) combined_notes in
           case map_of incident_data (str ''number'') of
             None \<Rightarrow> (None, log1 @ [StError (str ''An error occurred: '' @ [0x27] @ str ''number'' @ [0x27])])
           | Some number \<Rightarrow>
               (let prompt = str ''Provide detailed resolution steps for incident '' @ number
                       @ str '':\<newline>\<newline>'' @ cleaned_notes @ str ''\<newline>\<newline>Steps:'';
                    log2 = log1 @ [ChatCompletionCreate prompt]
                in case chat_completion_create E prompt of
                     Inr out \<Rightarrow> (Some (strip out), log2)
                   | Inl msg \<Rightarrow> (None, log2 @ [StError (str ''An error occurred: '' @ msg)]))))"

subsection \<open>The session and the three buttons\<close>

record session_state =
  st_incident_data :: "dict option"
  st_incident_notes :: "dict list option"
  st_summarized_notes :: "str option"
  st_resolution_steps :: "str option"
  st_incident_number :: "str option"

text \<open>\<^verbatim>\<open>if incident_data:\<close> holds for a dictionary that is not \<^verbatim>\<open>None\<close> and not empty.\<close>

fun truthy :: "dict option \<Rightarrow> bool" where
  "truthy None = False"
| "truthy (Some d) = (d \<noteq> [])"

text \<open>
  A handler runs when its button is pressed, on the text of the input box. It returns the
  exception that escaped it (if any), the session state and the log.
\<close>

type_synonym outcome = "py_error option \<times> session_state \<times> event list"

definition summarize_incident_button ::
  "env \<Rightarrow> str \<Rightarrow> session_state \<Rightarrow> event list \<Rightarrow> outcome" where
  "summarize_incident_button E incident_number s log =
     (if incident_number \<noteq> [] then
        (let s1 = s\<lparr>st_incident_number := Some incident_number\<rparr> in
         case fetch_incident_data E incident_number log of
           (Inl e, log1) \<Rightarrow> (Some e, s1, log1)
         | (Inr incident_data, log1) \<Rightarrow>
             if truthy incident_data then
               (case getitem (the incident_data) (str ''sys_id'') of
                  Inl e \<Rightarrow> (Some e, s1, log1)
                | Inr sys_id \<Rightarrow>
                    (case fetch_incident_notes E sys_id log1 of
                       (Inl e, log2) \<Rightarrow> (Some e, s1, log2)
                     | (Inr incident_notes, log2) \<Rightarrow>
                         (case summarize_incident E (the incident_data) incident_notes log2 of
                            (Inl e, log3) \<Rightarrow> (Some e, s1, log3)
                          | (Inr (incident_summary, summarized_notes), log3) \<Rightarrow>
                              (None,
                               s1\<lparr>st_incident_data := incident_data,
                                  st_incident_notes := Some incident_notes,
                                  st_summarized_notes := summarized_notes,
                                  st_resolution_steps := None\<rparr>,
                               log3))))
             else (None, s1, log1 @ [StError (str ''Incident not found.'')]))
      else (None, s, log))"

definition clear_button :: "session_state \<Rightarrow> event list \<Rightarrow> outcome" where
  "clear_button s log =
     (None,
      s\<lparr>st_incident_data := None, st_incident_notes := None, st_summarized_notes := None,
        st_resolution_steps := None, st_incident_number := None\<rparr>,
      log @ [StRerun])"

definition resolution_steps_button ::
  "env \<Rightarrow> str \<Rightarrow> session_state \<Rightarrow> event list \<Rightarrow> outcome" where
  "resolution_steps_button E incident_number s log =
     (if incident_number \<noteq> [] then
        (case fetch_incident_data E incident_number log of
           (Inl e, log1) \<Rightarrow> (Some e, s, log1)
         | (Inr incident_data, log1) \<Rightarrow>
             if truthy incident_data then
               (case getitem (the incident_data) (str ''state'') of
                  Inl e \<Rightarrow> (Some e, s, log1)
                | Inr state \<Rightarrow>
                    if state \<in> set [str ''6'', str ''5'', str ''7''] then
                      (None, s, log1 @ [StInfo (str ''Resolution steps are not available for Canceled or Closed or Resolved incidents.'')])
                    else
                      (case getitem (the incident_data) (str ''sys_id'') of
                         Inl e \<Rightarrow> (Some e, s, log1)
                       | Inr sys_id \<Rightarrow>
                           (case fetch_incident_notes E sys_id log1 of
                              (Inl e, log2) \<Rightarrow> (Some e, s, log2)
                            | (Inr incident_notes, log2) \<Rightarrow>
                                (case fetch_detailed_resolution_steps E (the incident_data)
                                        incident_notes log2 of
                                   (resolution_steps, log3) \<Rightarrow>
                                     (None,
                                      s\<lparr>st_incident_data := incident_data,
                                        st_incident_notes := Some incident_notes,
                                        st_resolution_steps := resolution_steps\<rparr>,
                                      log3)))))
             else (None, s, log1 @ [StError (str ''Incident not found.'')]))
      else (None, s, log @ [StError (str ''Please enter an incident number.'')]))"

subsection \<open>The words of the specification\<close>

text \<open>
  The line the specification gives for a note with the fields \<open>element\<close>,
  \<open>sys_created_on\<close> and \<open>value\<close>, and what it means for a note to have them.
\<close>

definition spec_note_line :: "str \<times> str \<times> str \<Rightarrow> str" where
  "spec_note_line f =
     (case f of (element, sys_created_on, val) \<Rightarrow>
        (if element = str ''work_notes'' then str ''Work Note'' else str ''Additional Comment'')
        @ str '' ('' @ sys_created_on @ str ''): '' @ val @ str ''\<newline>'')"

definition has_fields :: "dict \<Rightarrow> str \<times> str \<times> str \<Rightarrow> bool" where
  "has_fields note f =
     (case f of (element, sys_created_on, val) \<Rightarrow>
        map_of note (str ''element'') = Some element \<and>
        map_of note (str ''sys_created_on'') = Some sys_created_on \<and>
        map_of note (str ''value'') = Some val)"

text \<open>
  The prompts of the completion endpoint in a log, the prompt of \<^verbatim>\<open>summarize_text\<close> for
  its default task, and the text of an attachment that reaches the summarizer: the attachment
  has a name that is not an image name, an identifier, and content that was fetched and is
  not empty.
\<close>

fun completion_prompts :: "event list \<Rightarrow> str list" where
  "completion_prompts [] = []"
| "completion_prompts (CompletionCreate prompt # es) = prompt # completion_prompts es"
| "completion_prompts (e # es) = completion_prompts es"

definition summarized_content :: "env \<Rightarrow> dict \<Rightarrow> str option" where
  "summarized_content E attachment =
     (case (map_of attachment (str ''file_name''), map_of attachment (str ''sys_id'')) of
        (Some file_name, Some sys_id) \<Rightarrow>
          (let response = requests_get E (AttachmentFile sys_id)
           in if \<not> is_image file_name \<and> status_code response = 200 \<and> content response \<noteq> []
              then Some (decode_utf8_ignore E (content response)) else None)
      | _ \<Rightarrow> None)"

definition summarize_prompt :: "str \<Rightarrow> str" where
  "summarize_prompt text = str ''Summarize the following ticket notes:\<newline>\<newline>'' @ text @ str ''\<newline>\<newline>Result:''"

subsection \<open>Example sessions and services\<close>

definition table_response :: "dict list \<Rightarrow> response" where
  "table_response rs = \<lparr>status_code = 200, json = JSONObject (Some rs), content = []\<rparr>"

definition file_response :: "int \<Rightarrow> bytes \<Rightarrow> response" where
  "file_response code bs = \<lparr>status_code = code, json = NotJSON, content = bs\<rparr>"

definition env_of :: "(request \<Rightarrow> response) \<Rightarrow> env" where
  "env_of get =
     \<lparr>requests_get = get, completion_create = (\<lambda>prompt. Inr (str ''  a summary '')),
      chat_completion_create = (\<lambda>prompt. Inr (str ''some steps'')),
      decode_utf8_ignore = (\<lambda>bs. str bs), unicode_database = latin_fullwidth\<rparr>"

definition env_closed_incident :: env where
  "env_closed_incident =
     env_of (\<lambda>r. case r of
        IncidentTable n \<Rightarrow> table_response [[(str ''sys_id'', str ''46d44a''), (str ''number'', n), (str ''state'', str ''6'')]]
      | _ \<Rightarrow> table_response [])"

definition env_no_incident :: env where
  "env_no_incident = env_of (\<lambda>r. table_response [])"

definition empty_session :: session_state where
  "empty_session =
     \<lparr>st_incident_data = None, st_incident_notes = None, st_summarized_notes = None,
      st_resolution_steps = None, st_incident_number = None\<rparr>"

definition env_files :: env where
  "env_files = env_of (\<lambda>r. case r of
        AttachmentFile sys_id \<Rightarrow> file_response 200 (''content of '' @ map char_of sys_id)
      | _ \<Rightarrow> table_response [])"

definition env_file_missing :: env where
  "env_file_missing = env_of (\<lambda>r. case r of
        AttachmentFile sys_id \<Rightarrow> file_response 404 []
      | _ \<Rightarrow> table_response [])"

definition env_lookup :: env where
  "env_lookup = env_of (\<lambda>r. case r of
        IncidentTable n \<Rightarrow>
          (if n = str ''INC0010001'' then table_response [[(str ''sys_id'', str ''46d44a''), (str ''number'', n)]]
           else if n = str ''INC0010002'' then table_response []
           else \<lparr>status_code = 503, json = NotJSON, content = ''Service Unavailable''\<rparr>)
      | _ \<Rightarrow> table_response [])"

definition env_empty_file :: env where
  "env_empty_file = env_of (\<lambda>r. case r of
        AttachmentFile sys_id \<Rightarrow> file_response 200 []
      | _ \<Rightarrow> table_response [])"

section \<open>Properties\<close>

lemmas regex_eval =
  redact_sensitive_info_def sensitive_patterns_def re_sub_def sub_from.simps search_at_def
  greedy_def email_pattern_def phone_pattern_def ssn_pattern_def Lit_def redacted_def
  local_cls_def domain_cls_def tld_cls_def ascii_alpha_def ascii_digit_def in_range_def
  at_boundary_def is_word_def isalnum_def isdecimal_def latin_fullwidth_def

subsection \<open>Note aggregation\<close>

lemma note_content_fields:
  "has_fields note f \<Longrightarrow> note_content note = Some (spec_note_line f)"
  by (cases f) (simp add: has_fields_def note_content_def spec_note_line_def)

lemma summarize_incident_notes_valid:
  "list_all2 has_fields incident_notes fs \<Longrightarrow>
   summarize_incident_notes incident_notes acc log = (acc @ concat (map spec_note_line fs), log)"
proof (induction incident_notes arbitrary: fs acc)
  case Nil
  then show ?case by simp
next
  case (Cons n incident_notes)
  then obtain f fs' where fs: "fs = f # fs'" "has_fields n f" "list_all2 has_fields incident_notes fs'"
    by (auto simp: list_all2_Cons1)
  with Cons.IH [of fs' "acc @ spec_note_line f"] show ?case
    by (simp add: note_content_fields)
qed

text \<open>
  C2. For notes that each have the three fields, the loop of \<^verbatim>\<open>summarize_incident\<close> builds,
  in input order, one line per note, "Work Note" or "Additional Comment" followed by the
  time in parentheses, a colon, the value and a newline; it writes no notice. For the two
  notes of the specification the text is exactly
  "Work Note (t1): a" newline "Additional Comment (t2): b" newline.
\<close>

theorem aggregation_in_order:
  assumes "list_all2 has_fields incident_notes fs"
  shows "summarize_incident_notes incident_notes [] log = (concat (map spec_note_line fs), log) \<and>
         summarize_incident_notes
           [[(str ''element'', str ''work_notes''), (str ''sys_created_on'', t1), (str ''value'', str ''a'')],
            [(str ''element'', str ''comments''), (str ''sys_created_on'', t2), (str ''value'', str ''b'')]] [] log
         = (str ''Work Note ('' @ t1 @ str ''): a\<newline>Additional Comment ('' @ t2 @ str ''): b\<newline>'', log)"
  using summarize_incident_notes_valid [OF assms, of "[]" log]
  by (simp add: note_content_def)

theorem aggregation_in_order_witness:
  "summarize_incident_notes
     [[(str ''value'', str ''rebooted''), (str ''element'', str ''work_notes''), (str ''sys_created_on'', str ''2024-05-01 09:00:00'')],
      [(str ''element'', str ''comments''), (str ''sys_created_on'', str ''2024-05-01 08:00:00''), (str ''value'', str ''still down'')]]
     [] []
   = (str ''Work Note (2024-05-01 09:00:00): rebooted\<newline>Additional Comment (2024-05-01 08:00:00): still down\<newline>'', [])"
proof -
  have h: "list_all2 has_fields
     [[(str ''value'', str ''rebooted''), (str ''element'', str ''work_notes''), (str ''sys_created_on'', str ''2024-05-01 09:00:00'')],
      [(str ''element'', str ''comments''), (str ''sys_created_on'', str ''2024-05-01 08:00:00''), (str ''value'', str ''still down'')]]
     [(str ''work_notes'', str ''2024-05-01 09:00:00'', str ''rebooted''),
      (str ''comments'', str ''2024-05-01 08:00:00'', str ''still down'')]"
    by (simp add: has_fields_def)
  show ?thesis using aggregation_in_order [OF h, of "[]"]
    by (simp add: spec_note_line_def)
qed

text \<open>
  In both loops a note that lacks a field adds nothing to the text and the lines of the
  other notes keep their order; only the loop of \<^verbatim>\<open>summarize_incident\<close> writes a notice.
\<close>

lemma summarize_incident_notes_skips:
  "summarize_incident_notes incident_notes acc log =
     (acc @ concat (map (\<lambda>n. case note_content n of Some l \<Rightarrow> l | None \<Rightarrow> []) incident_notes),
      log @ map (StWrite (str ''Skipping note due to missing fields:''))
                (filter (\<lambda>n. note_content n = None) incident_notes))"
  by (induction incident_notes arbitrary: acc log) (auto split: option.splits)

lemma resolution_steps_notes_skips:
  "resolution_steps_notes incident_notes acc log =
     (acc @ concat (map (\<lambda>n. case note_content n of Some l \<Rightarrow> l | None \<Rightarrow> []) incident_notes), log)"
  by (induction incident_notes arbitrary: acc log) (auto split: option.splits)

text \<open>
  C3. A note without \<open>value\<close> followed by a complete note: both loops leave the first out
  and keep the line of the second; the loop of \<^verbatim>\<open>summarize_incident\<close> writes the notice
  "Skipping note due to missing fields:", the loop of \<^verbatim>\<open>fetch_detailed_resolution_steps\<close>
  writes nothing, and the whole function logs only its call of the chat endpoint.
\<close>

theorem resolution_steps_skip_unreported:
  "resolution_steps_notes
     [[(str ''element'', str ''work_notes''), (str ''sys_created_on'', str ''t1'')],
      [(str ''element'', str ''comments''), (str ''sys_created_on'', str ''t2''), (str ''value'', str ''b'')]] [] []
   = (str ''Additional Comment (t2): b\<newline>'', []) \<and>
   summarize_incident_notes
     [[(str ''element'', str ''work_notes''), (str ''sys_created_on'', str ''t1'')],
      [(str ''element'', str ''comments''), (str ''sys_created_on'', str ''t2''), (str ''value'', str ''b'')]] [] []
   = (str ''Additional Comment (t2): b\<newline>'',
      [StWrite (str ''Skipping note due to missing fields:'')
         [(str ''element'', str ''work_notes''), (str ''sys_created_on'', str ''t1'')]]) \<and>
   snd (fetch_detailed_resolution_steps env_no_incident [(str ''number'', str ''INC0010002'')]
     [[(str ''element'', str ''work_notes''), (str ''sys_created_on'', str ''t1'')],
      [(str ''element'', str ''comments''), (str ''sys_created_on'', str ''t2''), (str ''value'', str ''b'')]] [])
   = [ChatCompletionCreate
        (str ''Provide detailed resolution steps for incident INC0010002:\<newline>\<newline>Additional Comment (t2): b\<newline>\<newline>\<newline>Steps:'')]"
  by (simp add: note_content_def fetch_detailed_resolution_steps_def env_no_incident_def env_of_def
      regex_eval)

subsection \<open>The ticketing client\<close>

text \<open>
  C8. \<^verbatim>\<open>fetch_incident_data\<close> returns the first record of the result when the status is 200
  and the result is not empty, \<^verbatim>\<open>None\<close> when the status is 200 and the result is empty, and
  \<^verbatim>\<open>None\<close> for every other status, whatever the body is: it raises nothing then.
\<close>

theorem fetch_incident_data_result:
  "(status_code (requests_get E (IncidentTable n)) = 200 \<and>
    json (requests_get E (IncidentTable n)) = JSONObject (Some (r # rs))
      \<longrightarrow> fst (fetch_incident_data E n log) = Inr (Some r)) \<and>
   (status_code (requests_get E (IncidentTable n)) = 200 \<and>
    json (requests_get E (IncidentTable n)) = JSONObject (Some [])
      \<longrightarrow> fst (fetch_incident_data E n log) = Inr None) \<and>
   (status_code (requests_get E (IncidentTable n)) \<noteq> 200
      \<longrightarrow> fst (fetch_incident_data E n log) = Inr None)"
  by (simp add: fetch_incident_data_def Let_def)

theorem fetch_incident_data_result_witness:
  "fst (fetch_incident_data env_lookup (str ''INC0010001'') []) =
      Inr (Some [(str ''sys_id'', str ''46d44a''), (str ''number'', str ''INC0010001'')]) \<and>
   fst (fetch_incident_data env_lookup (str ''INC0010002'') []) = Inr None \<and>
   fst (fetch_incident_data env_lookup (str ''INC0010003'') []) = Inr None"
proof -
  have r1: "status_code (requests_get env_lookup (IncidentTable (str ''INC0010001''))) = 200 \<and>
     json (requests_get env_lookup (IncidentTable (str ''INC0010001''))) =
       JSONObject (Some ([(str ''sys_id'', str ''46d44a''), (str ''number'', str ''INC0010001'')] # []))"
    by (simp add: env_lookup_def env_of_def table_response_def)
  have r2: "status_code (requests_get env_lookup (IncidentTable (str ''INC0010002''))) = 200 \<and>
     json (requests_get env_lookup (IncidentTable (str ''INC0010002''))) = JSONObject (Some [])"
    by (simp add: env_lookup_def env_of_def table_response_def)
  have r3: "status_code (requests_get env_lookup (IncidentTable (str ''INC0010003''))) \<noteq> 200"
    by (simp add: env_lookup_def env_of_def table_response_def)
  from r1 fetch_incident_data_result [of env_lookup "str ''INC0010001''"
        "[(str ''sys_id'', str ''46d44a''), (str ''number'', str ''INC0010001'')]" "[]" "[]"]
  have a: "fst (fetch_incident_data env_lookup (str ''INC0010001'') []) =
      Inr (Some [(str ''sys_id'', str ''46d44a''), (str ''number'', str ''INC0010001'')])" by blast
  from r2 fetch_incident_data_result [of env_lookup "str ''INC0010002''" _ _ "[]"]
  have b: "fst (fetch_incident_data env_lookup (str ''INC0010002'') []) = Inr None" by blast
  from r3 fetch_incident_data_result [of env_lookup "str ''INC0010003''" _ _ "[]"]
  have c: "fst (fetch_incident_data env_lookup (str ''INC0010003'') []) = Inr None" by blast
  from a b c show ?thesis by simp
qed

subsection \<open>The attachment summarizer\<close>

lemma completion_prompts_append:
  "completion_prompts (xs @ ys) = completion_prompts xs @ completion_prompts ys"
  by (induction xs rule: completion_prompts.induct) auto

lemma summarize_text_log:
  "\<exists>evs. snd (summarize_text E text (str ''Summarize'') log) = log @ evs \<and>
         completion_prompts evs = [summarize_prompt text]"
  by (auto simp: summarize_text_def summarize_prompt_def Let_def split: sum.splits)

lemma attachment_step_pass:
  assumes "map_of a (str ''file_name'') = Some f" and "summarized_content E a = Some t"
  shows "\<exists>summary evs. summarize_attachments_loop E (a # rest) summaries log =
           summarize_attachments_loop E rest
             (summaries @ [\<lparr>File_Name = f, Summary = summary\<rparr>]) (log @ evs) \<and>
           completion_prompts evs = [summarize_prompt t]"
proof -
  from assms obtain i where i: "map_of a (str ''sys_id'') = Some i"
    by (auto simp: summarized_content_def split: option.splits)
  let ?r = "requests_get E (AttachmentFile i)"
  from assms i have c: "\<not> is_image f" "status_code ?r = 200" "content ?r \<noteq> []"
      "t = decode_utf8_ignore E (content ?r)"
    by (auto simp: summarized_content_def Let_def split: if_splits)
  then obtain b bs where b: "content ?r = b # bs" by (cases "content ?r") auto
  obtain evs where evs: "snd (summarize_text E t (str ''Summarize'') (log @ [Get (AttachmentFile i)]))
       = (log @ [Get (AttachmentFile i)]) @ evs" "completion_prompts evs = [summarize_prompt t]"
    using summarize_text_log by blast
  show ?thesis
    apply (rule exI [of _ "fst (summarize_text E t (str ''Summarize'') (log @ [Get (AttachmentFile i)]))"])
    apply (rule exI [of _ "Get (AttachmentFile i) # evs"])
    using assms(1) i c b evs
    by (auto simp add: fetch_attachment_data_def Let_def split: prod.splits)
qed

lemma attachment_step_skip:
  assumes "map_of a (str ''file_name'') = Some f" and "summarized_content E a = None"
  shows "\<exists>evs. summarize_attachments_loop E (a # rest) summaries log =
           summarize_attachments_loop E rest summaries (log @ evs) \<and>
           completion_prompts evs = []"
proof (cases "is_image f")
  case True
  with assms show ?thesis by (intro exI [of _ "[]"]) simp
next
  case False
  show ?thesis
  proof (cases "map_of a (str ''sys_id'')")
    case None
    with assms False show ?thesis by (intro exI [of _ "[]"]) simp
  next
    case (Some i)
    with assms False show ?thesis
      by (intro exI [of _ "[Get (AttachmentFile i)]"])
         (auto simp: summarized_content_def fetch_attachment_data_def Let_def
               split: list.splits if_splits)
  qed
qed

lemma summarize_attachments_loop_char:
  assumes "\<forall>a\<in>set attachments. map_of a (str ''file_name'') \<noteq> None"
  shows "\<exists>new evs. summarize_attachments_loop E attachments summaries log =
            (Inr (summaries @ new), log @ evs) \<and>
          completion_prompts evs = map summarize_prompt (List.map_filter (summarized_content E) attachments) \<and>
          map File_Name new =
            List.map_filter (\<lambda>a. if summarized_content E a \<noteq> None then map_of a (str ''file_name'') else None)
              attachments"
  using assms
proof (induction attachments arbitrary: summaries log)
  case Nil
  then show ?case by (simp add: List.map_filter_simps)
next
  case (Cons a attachments)
  then obtain f where f: "map_of a (str ''file_name'') = Some f" by auto
  show ?case
  proof (cases "summarized_content E a")
    case None
    from attachment_step_skip [OF f None] obtain evs where
      s: "summarize_attachments_loop E (a # attachments) summaries log =
           summarize_attachments_loop E attachments summaries (log @ evs)"
         "completion_prompts evs = []" by blast
    from Cons.IH [of summaries "log @ evs"] Cons.prems obtain new evs' where
      n: "summarize_attachments_loop E attachments summaries (log @ evs) =
            (Inr (summaries @ new), (log @ evs) @ evs')"
         "completion_prompts evs' = map summarize_prompt (List.map_filter (summarized_content E) attachments)"
         "map File_Name new =
            List.map_filter (\<lambda>a. if summarized_content E a \<noteq> None then map_of a (str ''file_name'') else None)
              attachments" by auto
    show ?thesis
      apply (rule exI [of _ new])
      apply (rule exI [of _ "evs @ evs'"])
      using s n None by (simp add: List.map_filter_simps completion_prompts_append)
  next
    case (Some t)
    from attachment_step_pass [OF f Some] obtain summary evs where
      s: "summarize_attachments_loop E (a # attachments) summaries log =
           summarize_attachments_loop E attachments
             (summaries @ [\<lparr>File_Name = f, Summary = summary\<rparr>]) (log @ evs)"
         "completion_prompts evs = [summarize_prompt t]" by blast
    from Cons.IH [of "summaries @ [\<lparr>File_Name = f, Summary = summary\<rparr>]" "log @ evs"] Cons.prems
    obtain new evs' where
      n: "summarize_attachments_loop E attachments
             (summaries @ [\<lparr>File_Name = f, Summary = summary\<rparr>]) (log @ evs) =
            (Inr ((summaries @ [\<lparr>File_Name = f, Summary = summary\<rparr>]) @ new), (log @ evs) @ evs')"
         "completion_prompts evs' = map summarize_prompt (List.map_filter (summarized_content E) attachments)"
         "map File_Name new =
            List.map_filter (\<lambda>a. if summarized_content E a \<noteq> None then map_of a (str ''file_name'') else None)
              attachments" by auto
    show ?thesis
      apply (rule exI [of _ "\<lparr>File_Name = f, Summary = summary\<rparr> # new"])
      apply (rule exI [of _ "evs @ evs'"])
      using s n Some f by (simp add: List.map_filter_simps completion_prompts_append)
  qed
qed

lemma is_image_examples:
  "is_image (str ''a.png'')" "\<not> is_image (str ''b.txt'')" "is_image (str ''c.JPG'')" "\<not> is_image (str ''d.log'')"
  by (simp_all add: is_image_def image_extensions_def endswith_def lower_def lower_char_def
      in_range_def)

text \<open>
  C7, as stated, fails: an attachment named \<^verbatim>\<open>b.txt\<close> is not an image, yet it is not
  passed to the summarizer when its file cannot be fetched, or when it has no \<^verbatim>\<open>sys_id\<close>.
\<close>

theorem summarize_attachments_not_all_non_images:
  "\<not> is_image (str ''b.txt'') \<and>
   summarize_attachments env_file_missing [[(str ''sys_id'', str ''att2''), (str ''file_name'', str ''b.txt'')]] []
     = (Inr [], [Get (AttachmentFile (str ''att2''))]) \<and>
   summarize_attachments env_files [[(str ''file_name'', str ''b.txt'')]] [] = (Inr [], [])"
  by (simp add: summarize_attachments_def is_image_def image_extensions_def endswith_def lower_def
      lower_char_def in_range_def fetch_attachment_data_def env_file_missing_def env_files_def env_of_def
      file_response_def)

text \<open>
  C7, amended. When every attachment has a file name, \<^verbatim>\<open>summarize_attachments\<close> raises
  nothing, and the texts it passes to the summarizer are, in order, those of the attachments
  whose name does not end (case-insensitively) in an image extension, that have a
  \<^verbatim>\<open>sys_id\<close>, and whose content was fetched with status 200 and is not empty; the output has
  one entry for each of them. For \<^verbatim>\<open>a.png, b.txt, c.JPG, d.log\<close> with fetchable content these
  are \<^verbatim>\<open>b.txt\<close> and \<^verbatim>\<open>d.log\<close>.
\<close>

theorem summarize_attachments_passes:
  assumes "\<forall>a\<in>set attachments. map_of a (str ''file_name'') \<noteq> None"
  shows "\<exists>summaries evs.
           summarize_attachments E attachments log = (Inr summaries, log @ evs) \<and>
           completion_prompts evs =
             map summarize_prompt (List.map_filter (summarized_content E) attachments) \<and>
           map File_Name summaries =
             List.map_filter
               (\<lambda>a. if summarized_content E a \<noteq> None then map_of a (str ''file_name'') else None)
               attachments"
  using summarize_attachments_loop_char [OF assms, of E "[]" log]
  by (simp add: summarize_attachments_def)

theorem summarize_attachments_passes_witness:
  "\<exists>summaries evs.
     summarize_attachments env_files
       [[(str ''sys_id'', str ''att1''), (str ''file_name'', str ''a.png'')],
        [(str ''sys_id'', str ''att2''), (str ''file_name'', str ''b.txt'')],
        [(str ''sys_id'', str ''att3''), (str ''file_name'', str ''c.JPG'')],
        [(str ''sys_id'', str ''att4''), (str ''file_name'', str ''d.log'')]] [] = (Inr summaries, [] @ evs) \<and>
     completion_prompts evs =
       [summarize_prompt (str ''content of att2''), summarize_prompt (str ''content of att4'')] \<and>
     map File_Name summaries = [str ''b.txt'', str ''d.log'']"
proof -
  have h: "\<forall>a\<in>set [[(str ''sys_id'', str ''att1''), (str ''file_name'', str ''a.png'')],
        [(str ''sys_id'', str ''att2''), (str ''file_name'', str ''b.txt'')],
        [(str ''sys_id'', str ''att3''), (str ''file_name'', str ''c.JPG'')],
        [(str ''sys_id'', str ''att4''), (str ''file_name'', str ''d.log'')]]. map_of a (str ''file_name'') \<noteq> None"
    by simp
  show ?thesis
    using summarize_attachments_passes [OF h, of env_files "[]"]
    by (simp add: List.map_filter_simps summarized_content_def is_image_examples [simplified]
        env_files_def env_of_def file_response_def)
qed

text \<open>
  C10. A non-image attachment without \<^verbatim>\<open>sys_id\<close>, or whose fetch fails, or whose fetched
  content is empty, adds no entry and causes no call of the summarizer: the loop goes on with
  the same \<^verbatim>\<open>summaries\<close>. An empty file and a failed fetch leave the same state behind.
\<close>

theorem attachment_without_content_no_entry:
  assumes "map_of attachment (str ''file_name'') = Some file_name"
    and "\<not> is_image file_name"
    and "map_of attachment (str ''sys_id'') = None \<or>
         (\<exists>sys_id. map_of attachment (str ''sys_id'') = Some sys_id \<and>
            (status_code (requests_get E (AttachmentFile sys_id)) \<noteq> 200 \<or>
             content (requests_get E (AttachmentFile sys_id)) = []))"
  shows "summarize_attachments_loop E (attachment # attachments) summaries log =
         summarize_attachments_loop E attachments summaries
           (case map_of attachment (str ''sys_id'') of
              None \<Rightarrow> log | Some sys_id \<Rightarrow> log @ [Get (AttachmentFile sys_id)])"
  using assms
  by (auto simp: fetch_attachment_data_def Let_def split: list.splits)

theorem attachment_without_content_no_entry_witness:
  "summarize_attachments_loop env_empty_file
     [[(str ''sys_id'', str ''att2''), (str ''file_name'', str ''b.txt'')]] [] [] =
     (Inr [], [Get (AttachmentFile (str ''att2''))]) \<and>
   summarize_attachments_loop env_file_missing
     [[(str ''sys_id'', str ''att2''), (str ''file_name'', str ''b.txt'')]] [] [] =
     (Inr [], [Get (AttachmentFile (str ''att2''))]) \<and>
   summarize_attachments_loop env_files [[(str ''file_name'', str ''b.txt'')]] [] [] = (Inr [], [])"
proof -
  have n: "\<not> is_image (str ''b.txt'')" by (rule is_image_examples)
  have f1: "map_of [(str ''sys_id'', str ''att2''), (str ''file_name'', str ''b.txt'')] (str ''file_name'') = Some (str ''b.txt'')"
    by simp
  have f2: "map_of [(str ''file_name'', str ''b.txt'')] (str ''file_name'') = Some (str ''b.txt'')" by simp
  have c1: "map_of [(str ''sys_id'', str ''att2''), (str ''file_name'', str ''b.txt'')] (str ''sys_id'') = None \<or>
     (\<exists>sys_id. map_of [(str ''sys_id'', str ''att2''), (str ''file_name'', str ''b.txt'')] (str ''sys_id'') = Some sys_id \<and>
        (status_code (requests_get env_empty_file (AttachmentFile sys_id)) \<noteq> 200 \<or>
         content (requests_get env_empty_file (AttachmentFile sys_id)) = []))"
    by (simp add: env_empty_file_def env_of_def file_response_def)
  have c2: "map_of [(str ''sys_id'', str ''att2''), (str ''file_name'', str ''b.txt'')] (str ''sys_id'') = None \<or>
     (\<exists>sys_id. map_of [(str ''sys_id'', str ''att2''), (str ''file_name'', str ''b.txt'')] (str ''sys_id'') = Some sys_id \<and>
        (status_code (requests_get env_file_missing (AttachmentFile sys_id)) \<noteq> 200 \<or>
         content (requests_get env_file_missing (AttachmentFile sys_id)) = []))"
    by (simp add: env_file_missing_def env_of_def file_response_def)
  have c3: "map_of [(str ''file_name'', str ''b.txt'')] (str ''sys_id'') = None \<or>
     (\<exists>sys_id. map_of [(str ''file_name'', str ''b.txt'')] (str ''sys_id'') = Some sys_id \<and>
        (status_code (requests_get env_files (AttachmentFile sys_id)) \<noteq> 200 \<or>
         content (requests_get env_files (AttachmentFile sys_id)) = []))"
    by simp
  show ?thesis
    using attachment_without_content_no_entry [OF f1 n c1, of "[]" "[]" "[]"]
          attachment_without_content_no_entry [OF f1 n c2, of "[]" "[]" "[]"]
          attachment_without_content_no_entry [OF f2 n c3, of "[]" "[]" "[]"]
    by simp
qed

subsection \<open>The session and its buttons\<close>

text \<open>
  C6. From every session state the Clear button sets the incident, the notes, the summary,
  the resolution steps and the entered identifier to \<^verbatim>\<open>None\<close>, and asks for a rerun.
\<close>

theorem clear_button_resets:
  "clear_button s log = (None, empty_session, log @ [StRerun])"
  by (simp add: clear_button_def empty_session_def)

text \<open>
  C4. When the Resolution Steps button is pressed for an identifier whose incident has the
  state "5", "6" or "7", the handler fetches the incident, shows one informational message
  and does nothing else: no notes are fetched, no language-model endpoint is called, and
  the session state is the one before.
\<close>

theorem resolution_steps_closed:
  assumes "incident_number \<noteq> []"
    and "fst (fetch_incident_data E incident_number log) = Inr (Some incident_data)"
    and "map_of incident_data (str ''state'') = Some state"
    and "state = str ''5'' \<or> state = str ''6'' \<or> state = str ''7''"
  shows "resolution_steps_button E incident_number s log =
           (None, s, log @ [Get (IncidentTable incident_number),
              StInfo (str ''Resolution steps are not available for Canceled or Closed or Resolved incidents.'')])"
proof -
  have l: "snd (fetch_incident_data E incident_number log) = log @ [Get (IncidentTable incident_number)]"
    by (simp add: fetch_incident_data_def Let_def split: payload.splits option.splits list.splits)
  have d: "incident_data \<noteq> []" using assms(3) by auto
  obtain r l1 where f: "fetch_incident_data E incident_number log = (r, l1)" by fastforce
  with assms(2) l have "r = Inr (Some incident_data)" "l1 = log @ [Get (IncidentTable incident_number)]" by auto
  with f assms d show ?thesis
    by (auto simp add: resolution_steps_button_def getitem_def)
qed

theorem resolution_steps_closed_witness:
  "resolution_steps_button env_closed_incident (str ''INC0010001'') empty_session [] =
     (None, empty_session, [Get (IncidentTable (str ''INC0010001'')),
        StInfo (str ''Resolution steps are not available for Canceled or Closed or Resolved incidents.'')])"
proof -
  have h1: "str ''INC0010001'' \<noteq> []" by simp
  have h2: "fst (fetch_incident_data env_closed_incident (str ''INC0010001'') []) =
      Inr (Some [(str ''sys_id'', str ''46d44a''), (str ''number'', str ''INC0010001''), (str ''state'', str ''6'')])"
    by (simp add: fetch_incident_data_def env_closed_incident_def env_of_def table_response_def)
  have h3: "map_of [(str ''sys_id'', str ''46d44a''), (str ''number'', str ''INC0010001''), (str ''state'', str ''6'')] (str ''state'')
      = Some (str ''6'')" by simp
  have h4: "str ''6'' = str ''5'' \<or> (str ''6'') = str ''6'' \<or> (str ''6'') = str ''7''" by simp
  show ?thesis using resolution_steps_closed [OF h1 h2 h3 h4, of empty_session] by simp
qed

text \<open>
  C5, as stated, fails: the lookup finds no record, and the session state has changed, since
  the handler stores the entered identifier before it looks the incident up.
\<close>

theorem summarize_not_found_counterexample:
  "fst (fetch_incident_data env_no_incident (str ''INC0404'') []) = Inr None \<and>
   fst (snd (summarize_incident_button env_no_incident (str ''INC0404'') empty_session [])) \<noteq> empty_session"
  by (simp add: summarize_incident_button_def fetch_incident_data_def env_no_incident_def env_of_def table_response_def empty_session_def)

text \<open>
  C5, amended. When Summarize Incident is pressed with an identifier whose lookup returns no
  record, the incident, the notes, the summary and the resolution steps of the session are
  unchanged, the entered identifier becomes the submitted one, and the only output is the
  message "Incident not found." after the one lookup.
\<close>

theorem summarize_not_found:
  assumes "incident_number \<noteq> []"
    and "fst (fetch_incident_data E incident_number log) = Inr None"
  shows "summarize_incident_button E incident_number s log =
           (None, s\<lparr>st_incident_number := Some incident_number\<rparr>,
            log @ [Get (IncidentTable incident_number), StError (str ''Incident not found.'')])"
proof -
  have l: "snd (fetch_incident_data E incident_number log) = log @ [Get (IncidentTable incident_number)]"
    by (simp add: fetch_incident_data_def Let_def split: payload.splits option.splits list.splits)
  obtain r l1 where f: "fetch_incident_data E incident_number log = (r, l1)" by fastforce
  with assms(2) l have "r = Inr None" "l1 = log @ [Get (IncidentTable incident_number)]" by auto
  with f assms show ?thesis
    by (simp add: summarize_incident_button_def Let_def)
qed

theorem summarize_not_found_witness:
  "summarize_incident_button env_no_incident (str ''INC0404'') empty_session [] =
     (None, empty_session\<lparr>st_incident_number := Some (str ''INC0404'')\<rparr>,
      [Get (IncidentTable (str ''INC0404'')), StError (str ''Incident not found.'')])"
proof -
  have h1: "str ''INC0404'' \<noteq> []" by simp
  have h2: "fst (fetch_incident_data env_no_incident (str ''INC0404'') []) = Inr None"
    by (simp add: fetch_incident_data_def env_no_incident_def env_of_def table_response_def)
  show ?thesis using summarize_not_found [OF h1 h2, of empty_session] by simp
qed

subsection \<open>Redaction\<close>

lemma in_cls_Digit [simp]: "in_cls U Digit = isdecimal U"
  by (rule ext) simp

lemma in_cls_Chars [simp]: "in_cls U (Chars f) = f"
  by (rule ext) simp

lemma last_of_append: "last_of prev (u @ v) = last_of (last_of prev u) v"
  by (cases u; cases v) auto

lemma last_of_nonempty: "w \<noteq> [] \<Longrightarrow> last_of prev w = Some (last w)"
  by (cases w) auto

text \<open>
  The engine and the declarative reading agree: the positions a greedy repetition offers
  are those after a run of the class of admissible length, and the end positions the
  matcher lists are those after a word the pattern accepts.
\<close>

lemma runs_nth:
  "k < length (runs cls (prev, s)) \<Longrightarrow>
     runs cls (prev, s) ! k = (last_of prev (take k s), drop k s) \<and>
     list_all cls (take k s) \<and> k \<le> length s"
proof (induction s arbitrary: prev k)
  case Nil
  then show ?case by simp
next
  case (Cons c s)
  show ?case
  proof (cases k)
    case 0
    then show ?thesis by simp
  next
    case (Suc j)
    with Cons.prems have c: "cls c" and j: "j < length (runs cls (Some c, s))"
      by (auto split: if_splits)
    from Cons.IH [OF j] c Suc show ?thesis
      using last_of_append [of prev "[c]" "take j s"] by simp
  qed
qed

lemma runs_length:
  "k \<le> length s \<Longrightarrow> list_all cls (take k s) \<Longrightarrow> k < length (runs cls (prev, s))"
proof (induction s arbitrary: prev k)
  case Nil
  then show ?case by simp
next
  case (Cons c s)
  then show ?case by (cases k) auto
qed

lemma in_set_drop_nth:
  "x \<in> set (drop lo ys) \<longleftrightarrow> (\<exists>k. lo \<le> k \<and> k < length ys \<and> x = ys ! k)"
proof
  assume "x \<in> set (drop lo ys)"
  then obtain i where "i < length (drop lo ys)" "x = drop lo ys ! i"
    by (auto simp: in_set_conv_nth)
  then show "\<exists>k. lo \<le> k \<and> k < length ys \<and> x = ys ! k"
    by (intro exI [of _ "lo + i"]) auto
next
  assume "\<exists>k. lo \<le> k \<and> k < length ys \<and> x = ys ! k"
  then obtain k where k: "lo \<le> k" "k < length ys" "x = ys ! k" by blast
  then have "k - lo < length (drop lo ys)" "drop lo ys ! (k - lo) = x" by auto
  then show "x \<in> set (drop lo ys)" using nth_mem by blast
qed

lemma in_set_drop_take_nth:
  "x \<in> set (drop lo (take m ys)) \<longleftrightarrow> (\<exists>k. lo \<le> k \<and> k < m \<and> k < length ys \<and> x = ys ! k)"
  by (auto simp: in_set_drop_nth)

lemma greedy_set:
  "set (greedy cls lo hi (prev, s)) =
     {(last_of prev u, v) | u v. s = u @ v \<and> list_all cls u \<and> within lo hi (length u)}"
proof (intro set_eqI iffI)
  fix q assume "q \<in> set (greedy cls lo hi (prev, s))"
  then obtain k where k: "k < length (runs cls (prev, s))" "within lo hi k"
      "q = runs cls (prev, s) ! k"
    by (cases hi) (auto simp: greedy_def in_set_drop_nth in_set_drop_take_nth)
  from runs_nth [OF k(1)] k have
    "s = take k s @ drop k s \<and> list_all cls (take k s) \<and> within lo hi (length (take k s)) \<and>
     q = (last_of prev (take k s), drop k s)"
    by (auto simp add: min_def)
  then show
    "q \<in> {(last_of prev u, v) | u v. s = u @ v \<and> list_all cls u \<and> within lo hi (length u)}"
    by blast
next
  fix q assume "q \<in> {(last_of prev u, v) | u v. s = u @ v \<and> list_all cls u \<and> within lo hi (length u)}"
  then obtain u v where uv: "s = u @ v" "list_all cls u" "within lo hi (length u)"
      "q = (last_of prev u, v)" by auto
  then have l: "length u < length (runs cls (prev, s))"
    by (intro runs_length) auto
  from runs_nth [OF l] uv have "q = runs cls (prev, s) ! length u" by simp
  with l uv(3) show "q \<in> set (greedy cls lo hi (prev, s))"
    by (cases hi) (auto simp: greedy_def in_set_drop_nth in_set_drop_take_nth)
qed

lemma match_items_accepts:
  "q \<in> set (match_items U its (prev, s)) \<longleftrightarrow>
     (\<exists>w r. s = w @ r \<and> accepts U its prev w r \<and> q = (last_of prev w, r))"
proof (induction its arbitrary: prev s)
  case Nil
  then show ?case by auto
next
  case (Cons it its)
  show ?case
  proof (cases it)
    case Bnd
    with Cons.IH show ?thesis by auto
  next
    case (Rep cls lo hi)
    show ?thesis
    proof
      assume "q \<in> set (match_items U (it # its) (prev, s))"
      then obtain p where p: "p \<in> set (greedy (in_cls U cls) lo hi (prev, s))" "q \<in> set (match_items U its p)"
        using Rep by auto
      then obtain u v where uv: "s = u @ v" "list_all (in_cls U cls) u" "within lo hi (length u)"
          "p = (last_of prev u, v)" by (auto simp: greedy_set)
      with p(2) Cons.IH obtain w r where wr: "v = w @ r" "accepts U its (last_of prev u) w r"
          "q = (last_of (last_of prev u) w, r)" by blast
      have "s = (u @ w) @ r" "accepts U (it # its) prev (u @ w) r" "q = (last_of prev (u @ w), r)"
        using uv wr Rep by (auto simp: last_of_append)
      then show "\<exists>w r. s = w @ r \<and> accepts U (it # its) prev w r \<and> q = (last_of prev w, r)" by blast
    next
      assume "\<exists>w r. s = w @ r \<and> accepts U (it # its) prev w r \<and> q = (last_of prev w, r)"
      then obtain w r u v where wr: "s = w @ r" "q = (last_of prev w, r)" "w = u @ v"
          "list_all (in_cls U cls) u" "within lo hi (length u)" "accepts U its (last_of prev u) v r"
        using Rep by auto
      then have "(last_of prev u, v @ r) \<in> set (greedy (in_cls U cls) lo hi (prev, s))"
        by (auto simp: greedy_set)
      moreover have "q \<in> set (match_items U its (last_of prev u, v @ r))"
        using Cons.IH [of "last_of prev u" "v @ r"] wr by (auto simp: last_of_append)
      ultimately show "q \<in> set (match_items U (it # its) (prev, s))" using Rep by auto
    qed
  qed
qed

text \<open>
  Each of the three patterns is a core between two word boundaries; no class of the core
  holds a square bracket, and one item of the core must consume a character that the
  token does not hold.
\<close>

lemma well_delimitedD:
  "well_delimited U pat \<Longrightarrow> accepts U pat prev w r \<Longrightarrow>
     w \<noteq> [] \<and> ord CHR ''['' \<notin> set w \<and> ord CHR '']'' \<notin> set w \<and> \<not> set w \<subseteq> set redacted \<and>
     at_boundary U (prev, w @ r) \<and> at_boundary U (Some (last w), r)"
  unfolding well_delimited_def by blast

lemma well_delimited_move:
  "well_delimited U pat \<Longrightarrow> accepts U pat prev w r \<Longrightarrow> at_boundary U (prev', w @ r') \<Longrightarrow>
     at_boundary U (Some (last w), r') \<Longrightarrow> accepts U pat prev' w r'"
  unfolding well_delimited_def by blast

lemma accepts_context_free:
  "Bnd \<notin> set core \<Longrightarrow> accepts U core prev w r \<Longrightarrow> accepts U core prev' w r'"
proof (induction core arbitrary: prev prev' w)
  case Nil
  then show ?case by simp
next
  case (Cons it core)
  then obtain cls lo hi where it: "it = Rep cls lo hi" by (cases it) auto
  with Cons.prems obtain u v where uv: "w = u @ v" "list_all (in_cls U cls) u" "within lo hi (length u)"
      "accepts U core (last_of prev u) v r" by auto
  from Cons.IH [OF _ uv(4), of "last_of prev' u"] Cons.prems(1)
  have "accepts U core (last_of prev' u) v r'" by simp
  with uv it show ?case by auto
qed

lemma accepts_snoc_Bnd:
  "Bnd \<notin> set core \<Longrightarrow>
   accepts U (core @ [Bnd]) prev w r \<longleftrightarrow> accepts U core prev w r \<and> at_boundary U (last_of prev w, r)"
proof (induction core arbitrary: prev w)
  case Nil
  then show ?case by auto
next
  case (Cons it core)
  then obtain cls lo hi where it: "it = Rep cls lo hi" by (cases it) auto
  from Cons.IH Cons.prems have
    IH: "\<And>p v. accepts U (core @ [Bnd]) p v r \<longleftrightarrow> accepts U core p v r \<and> at_boundary U (last_of p v, r)"
    by simp
  have "accepts U (Rep cls lo hi # core @ [Bnd]) prev w r \<longleftrightarrow>
      (\<exists>u v. w = u @ v \<and> list_all (in_cls U cls) u \<and> within lo hi (length u) \<and>
         accepts U core (last_of prev u) v r \<and> at_boundary U (last_of prev (u @ v), r))"
    by (simp add: IH last_of_append)
  also have "\<dots> \<longleftrightarrow> accepts U (Rep cls lo hi # core) prev w r \<and> at_boundary U (last_of prev w, r)"
    by auto
  finally show ?case by (simp add: it)
qed

lemma accepts_alphabet:
  "accepts U its prev w r \<Longrightarrow> c \<in> set w \<Longrightarrow> \<exists>cls lo hi. Rep cls lo hi \<in> set its \<and> in_cls U cls c"
proof (induction its arbitrary: prev w)
  case Nil
  then show ?case by simp
next
  case (Cons it its)
  show ?case
  proof (cases it)
    case Bnd
    with Cons show ?thesis by fastforce
  next
    case (Rep cls lo hi)
    with Cons.prems obtain u v where uv: "w = u @ v" "list_all (in_cls U cls) u"
        "accepts U its (last_of prev u) v r" by auto
    show ?thesis
    proof (cases "c \<in> set u")
      case True
      with uv(2) have "in_cls U cls c" by (simp add: list_all_iff)
      with Rep show ?thesis by auto
    next
      case False
      with uv Cons.prems have "c \<in> set v" by auto
      from Cons.IH [OF uv(3) this] show ?thesis by auto
    qed
  qed
qed

lemma accepts_mandatory:
  "accepts U its prev w r \<Longrightarrow> Rep cls lo hi \<in> set its \<Longrightarrow> 0 < lo \<Longrightarrow> \<exists>c\<in>set w. in_cls U cls c"
proof (induction its arbitrary: prev w)
  case Nil
  then show ?case by simp
next
  case (Cons it its)
  show ?case
  proof (cases it)
    case Bnd
    with Cons show ?thesis by fastforce
  next
    case (Rep cls' lo' hi')
    with Cons.prems obtain u v where uv: "w = u @ v" "list_all (in_cls U cls') u" "within lo' hi' (length u)"
        "accepts U its (last_of prev u) v r" by auto
    show ?thesis
    proof (cases "it = Rep cls lo hi")
      case True
      with Rep uv Cons.prems(3) have "u \<noteq> []" "list_all (in_cls U cls) u" by (cases hi'; auto)+
      then have "hd u \<in> set w" "in_cls U cls (hd u)" using uv(1) by (auto simp: list_all_iff)
      then show ?thesis by blast
    next
      case False
      with Cons.prems have "Rep cls lo hi \<in> set its" by auto
      from Cons.IH [OF uv(4) this Cons.prems(3)] uv(1) show ?thesis by auto
    qed
  qed
qed

lemma well_delimited_structure:
  assumes pat: "pat = Bnd # core @ [Bnd]"
    and core: "Bnd \<notin> set core"
    and brackets: "\<And>cls lo hi. Rep cls lo hi \<in> set core \<Longrightarrow> \<not> in_cls U cls (ord CHR ''['') \<and> \<not> in_cls U cls (ord CHR '']'')"
    and mand: "Rep cls0 lo0 hi0 \<in> set core" "0 < lo0" "\<And>c. in_cls U cls0 c \<Longrightarrow> c \<notin> set redacted"
  shows "well_delimited U pat"
proof -
  have char: "accepts U pat prev w r \<longleftrightarrow>
      at_boundary U (prev, w @ r) \<and> accepts U core prev w r \<and> at_boundary U (last_of prev w, r)"
    for prev w r
    by (simp add: pat accepts_snoc_Bnd [OF core])
  have ne: "w \<noteq> [] \<and> ord CHR ''['' \<notin> set w \<and> ord CHR '']'' \<notin> set w \<and> \<not> set w \<subseteq> set redacted"
    if a: "accepts U core prev w r" for prev w r
  proof -
    from accepts_mandatory [OF a mand(1,2)] obtain c where c: "c \<in> set w" "in_cls U cls0 c" by blast
    with mand(3) have "c \<notin> set redacted" by blast
    with c have "w \<noteq> []" "\<not> set w \<subseteq> set redacted" by auto
    moreover have "ord CHR ''['' \<notin> set w" "ord CHR '']'' \<notin> set w"
      using accepts_alphabet [OF a] brackets by blast+
    ultimately show ?thesis by simp
  qed
  show ?thesis
    unfolding well_delimited_def
  proof (intro conjI allI impI)
    fix prev w r assume "accepts U pat prev w r"
    then have a: "at_boundary U (prev, w @ r)" "accepts U core prev w r"
        "at_boundary U (last_of prev w, r)" by (simp_all add: char)
    from ne [OF a(2)] show "w \<noteq> []" "ord CHR ''['' \<notin> set w" "ord CHR '']'' \<notin> set w"
        "\<not> set w \<subseteq> set redacted" by simp_all
    show "at_boundary U (prev, w @ r)" by (rule a)
    from a(3) \<open>w \<noteq> []\<close> show "at_boundary U (Some (last w), r)" by (simp add: last_of_nonempty)
  next
    fix prev w r prev' r'
    assume "accepts U pat prev w r" and b: "at_boundary U (prev', w @ r')"
      "at_boundary U (Some (last w), r')"
    then have a: "accepts U core prev w r" by (simp add: char)
    from ne [OF a] have "w \<noteq> []" by simp
    with b accepts_context_free [OF core a, of prev' r'] show "accepts U pat prev' w r'"
      by (simp add: char last_of_nonempty)
  qed
qed

lemma isdecimal_ascii: "c < 128 \<Longrightarrow> isdecimal U c = ascii_digit c"
  by (simp add: isdecimal_def)



lemma decimal_not_token:
  assumes "isdecimal U c"
  shows "c \<notin> set redacted" "c \<noteq> ord CHR ''[''" "c \<noteq> ord CHR '']''" "c \<noteq> ord CHR ''-''"
proof -
  let ?t = "c \<in> set redacted \<or> c = ord CHR ''['' \<or> c = ord CHR '']'' \<or> c = ord CHR ''-''"
  have "\<not> ascii_digit c" if ?t
    using that by (auto simp: redacted_def ascii_digit_def in_range_def)
  moreover have "c < 128" if ?t
    using that by (auto simp: redacted_def)
  ultimately have "\<not> ?t" using assms isdecimal_ascii [of c U] by blast
  then show "c \<notin> set redacted" "c \<noteq> ord CHR ''[''" "c \<noteq> ord CHR '']''" "c \<noteq> ord CHR ''-''"
    by blast+
qed

lemma decimal_not_bracket: "\<not> isdecimal U 91" "\<not> isdecimal U 93"
  by (simp_all add: isdecimal_def ascii_digit_def in_range_def)

lemma well_delimited_phone: "well_delimited U phone_pattern"
  by (rule well_delimited_structure [where core = "[Rep Digit 10 (Some 10)]"
        and ?cls0.0 = Digit and ?lo0.0 = 10 and ?hi0.0 = "Some 10"])
     (auto simp: phone_pattern_def decimal_not_bracket dest: decimal_not_token(1))

lemma well_delimited_ssn: "well_delimited U ssn_pattern"
  by (rule well_delimited_structure [where
        core = "[Rep Digit 3 (Some 3), Lit (CHR ''-''), Rep Digit 2 (Some 2), Lit (CHR ''-''),
                 Rep Digit 4 (Some 4)]"
        and ?cls0.0 = Digit and ?lo0.0 = 3 and ?hi0.0 = "Some 3"])
     (auto simp: ssn_pattern_def Lit_def decimal_not_bracket dest: decimal_not_token(1))

lemma well_delimited_email: "well_delimited U email_pattern"
  by (rule well_delimited_structure [where
        core = "[Rep (Chars local_cls) 1 None, Lit (CHR ''@''), Rep (Chars domain_cls) 1 None, Lit (CHR ''.''),
                 Rep (Chars tld_cls) 2 None]"
        and ?cls0.0 = "Chars (\<lambda>c. c = ord CHR ''@'')" and ?lo0.0 = 1 and ?hi0.0 = "Some 1"])
     (auto simp: email_pattern_def Lit_def local_cls_def domain_cls_def tld_cls_def ascii_alpha_def
        ascii_digit_def in_range_def redacted_def)

declare sub_from.simps [simp del]

text \<open>
  One pass of \<^verbatim>\<open>re.sub\<close> is a redaction: where the search finds nothing, nothing is
  accepted at the cursor and the character is copied; where it finds a match, the match is
  not empty and the token takes its place.
\<close>

lemma search_at_Some:
  "search_at U pat (prev, s) = Some q \<Longrightarrow>
     \<exists>w r. s = w @ r \<and> accepts U pat prev w r \<and> q = (last_of prev w, r)"
proof -
  assume "search_at U pat (prev, s) = Some q"
  then have "q \<in> set (match_items U pat (prev, s))"
    by (auto simp: search_at_def split: list.splits)
  then show ?thesis by (simp add: match_items_accepts)
qed

lemma search_at_None:
  "search_at U pat (prev, w @ r) = None \<Longrightarrow> \<not> accepts U pat prev w r"
proof
  assume n: "search_at U pat (prev, w @ r) = None" and a: "accepts U pat prev w r"
  from a have "(last_of prev w, r) \<in> set (match_items U pat (prev, w @ r))"
    unfolding match_items_accepts by blast
  with n show False by (auto simp: search_at_def split: list.splits)
qed

lemma sub_from_cases:
  assumes "well_delimited U pat"
  obtains
    (empty) "s = []" "sub_from U pat redacted (prev, s) = []"
      "\<And>w r. s = w @ r \<Longrightarrow> \<not> accepts U pat prev w r"
  | (copy) c cs where "s = c # cs"
      "sub_from U pat redacted (prev, s) = c # sub_from U pat redacted (Some c, cs)"
      "\<And>w r. s = w @ r \<Longrightarrow> \<not> accepts U pat prev w r"
  | (match) w r where "s = w @ r" "w \<noteq> []" "accepts U pat prev w r"
      "sub_from U pat redacted (prev, s) = redacted @ sub_from U pat redacted (Some (last w), r)"
proof (cases "search_at U pat (prev, s)")
  case None
  then have n: "\<And>w r. s = w @ r \<Longrightarrow> \<not> accepts U pat prev w r"
    using search_at_None by blast
  show ?thesis
  proof (cases s)
    case Nil
    with None n empty show ?thesis by (simp add: sub_from.simps)
  next
    case (Cons c cs)
    with None n copy show ?thesis by (simp add: sub_from.simps)
  qed
next
  case (Some q)
  from search_at_Some [OF this] obtain w r where
    wr: "s = w @ r" "accepts U pat prev w r" "q = (last_of prev w, r)" by blast
  with assms have ne: "w \<noteq> []" using well_delimitedD by blast
  with wr Some have "search_at U pat (prev, s) = Some (Some (last w), r)" "length r < length s"
    by (simp_all add: last_of_nonempty)
  then have "sub_from U pat redacted (prev, s) =
      redacted @ sub_from U pat redacted (Some (last w), r)"
    by (subst sub_from.simps) simp
  with wr ne match show ?thesis by blast
qed

lemma sub_from_redaction_of:
  "well_delimited U pat \<Longrightarrow> redaction_of U th {pat} prev s (sub_from U pat redacted (prev, s))"
proof (induction "length s" arbitrary: prev s rule: less_induct)
  case less
  show ?case
  proof (rule sub_from_cases [OF less.prems, of s prev])
    assume "s = []" "sub_from U pat redacted (prev, s) = []"
    then show ?thesis by (simp add: rd_end)
  next
    fix c cs
    assume s: "s = c # cs" "sub_from U pat redacted (prev, s) = c # sub_from U pat redacted (Some c, cs)"
       and none: "\<And>w r. s = w @ r \<Longrightarrow> \<not> accepts U pat prev w r"
    then have "\<not> starts U {pat} prev (c # cs)" by (auto simp: starts_def)
    with less.hyps [of cs "Some c"] less.prems s show ?thesis by (simp add: rd_keep)
  next
    fix w r
    assume "s = w @ r" "w \<noteq> []" "accepts U pat prev w r"
      "sub_from U pat redacted (prev, s) = redacted @ sub_from U pat redacted (Some (last w), r)"
    with less.hyps [of r "Some (last w)"] less.prems show ?thesis
      by (simp add: rd_replace)
  qed
qed

text \<open>
  A match in the output of a pass lies between tokens, never inside or across one, and
  the word boundaries it needs stand in the input of the pass as well. So an occurrence in
  the output is an occurrence in the input, and a pass leaves no occurrence of its own
  pattern.
\<close>

lemma at_boundary_head:
  "w \<noteq> [] \<Longrightarrow> at_boundary U (p, w @ x) = at_boundary U (p, w @ y)"
  by (cases w) (simp_all add: at_boundary_def)

lemma last_of_redacted: "last_of prev (redacted @ u) = last_of (Some (ord CHR '']'')) u"
  by (cases u) (simp_all add: redacted_def)

lemma token_free:
  assumes wd: "well_delimited U pat" and a: "accepts U pat prev w r"
    and eq: "x @ y = w @ r" and suf: "redacted = x0 @ x" and ne: "x \<noteq> []"
  shows False
proof -
  from well_delimitedD [OF wd a]
  have w: "w \<noteq> []" "ord CHR '']'' \<notin> set w" "\<not> set w \<subseteq> set redacted"
    by simp_all
  from eq obtain us where "x @ us = w \<and> y = us @ r \<or> x = w @ us \<and> us @ y = r"
    by (auto simp: append_eq_append_conv2)
  then show False
  proof
    assume "x @ us = w \<and> y = us @ r"
    moreover have "last x = ord CHR '']''"
    proof -
      from ne have "last (x0 @ x) = last x" by simp
      then show ?thesis unfolding suf [symmetric] by (simp add: redacted_def)
    qed
    ultimately have "ord CHR '']'' \<in> set w" using ne by (metis last_in_set Un_iff set_append)
    with w show False by simp
  next
    assume "x = w @ us \<and> us @ y = r"
    then have "set w \<subseteq> set (x0 @ x)" by auto
    then have "set w \<subseteq> set redacted" unfolding suf [symmetric] .
    with w show False by simp
  qed
qed

lemma redaction_of_peel:
  "redaction_of U th P prev s (w @ r') \<Longrightarrow> ord CHR ''['' \<notin> set w \<Longrightarrow>
     \<exists>r. s = w @ r \<and> redaction_of U th P (last_of prev w) r r'"
proof (induction w arbitrary: prev s)
  case Nil
  then show ?case by simp
next
  case (Cons c w)
  from Cons.prems(1) show ?case
  proof (cases rule: redaction_of.cases)
    case rd_end
    then show ?thesis by simp
  next
    case (rd_keep c' s' out)
    then have "c' = c" "out = w @ r'" by simp_all
    with rd_keep Cons.IH [of "Some c" s'] Cons.prems(2)
    obtain r where "s' = w @ r" "redaction_of U th P (last_of (Some c) w) r r'" by auto
    with rd_keep \<open>c' = c\<close> show ?thesis
      using last_of_append [of prev "[c]" w] by auto
  next
    case (rd_replace pat w' s' out)
    with Cons.prems(2) show ?thesis by (simp add: redacted_def)
  qed
qed

lemma redaction_of_boundary:
  assumes "redaction_of U th P prev s out" and "\<forall>pat\<in>P. well_delimited U pat"
    and "at_boundary U (prev, out)"
  shows "at_boundary U (prev, s)"
  using assms(1)
proof (cases rule: redaction_of.cases)
  case rd_end
  with assms(3) show ?thesis by simp
next
  case (rd_keep c s' out')
  with assms(3) show ?thesis by (simp add: at_boundary_def)
next
  case (rd_replace pat w s' out')
  with assms(2) well_delimitedD [of U pat prev w s'] show ?thesis by simp
qed

lemma occurrence_transfer:
  assumes rd: "redaction_of U th P prev s (w @ r')" and P: "\<forall>pat\<in>P. well_delimited U pat"
    and wd: "well_delimited U pat'" and a: "accepts U pat' prev' w r'"
    and ctx: "at_boundary U (prev', s) \<longrightarrow> at_boundary U (prev, s)"
  shows "\<exists>r. s = w @ r \<and> accepts U pat' prev w r \<and> redaction_of U th P (Some (last w)) r r'"
proof -
  from well_delimitedD [OF wd a]
  have w: "w \<noteq> []" "ord CHR ''['' \<notin> set w" "at_boundary U (prev', w @ r')"
      "at_boundary U (Some (last w), r')"
    by simp_all
  from redaction_of_peel [OF rd w(2)] w(1) obtain r where
    r: "s = w @ r" "redaction_of U th P (Some (last w)) r r'" by (auto simp: last_of_nonempty)
  from w(3) have "at_boundary U (prev', s)"
    unfolding r(1) using at_boundary_head [OF w(1)] by blast
  with ctx have "at_boundary U (prev, w @ r)" by (simp add: r(1))
  moreover from redaction_of_boundary [OF r(2) P w(4)] have "at_boundary U (Some (last w), r)" .
  ultimately have "accepts U pat' prev w r"
    using well_delimited_move [OF wd a] by blast
  with r show ?thesis by blast
qed

lemma occurs_Nil: "well_delimited U pat \<Longrightarrow> \<not> occurs U pat prev []"
  using well_delimitedD by (fastforce simp: occurs_def)

lemma occurs_Cons:
  "occurs U pat prev (c # s) \<longleftrightarrow>
     (\<exists>w r. c # s = w @ r \<and> accepts U pat prev w r) \<or> occurs U pat (Some c) s"
proof
  assume "occurs U pat prev (c # s)"
  then obtain u w r where uwr: "c # s = u @ w @ r" "accepts U pat (last_of prev u) w r"
    by (auto simp: occurs_def)
  show "(\<exists>w r. c # s = w @ r \<and> accepts U pat prev w r) \<or> occurs U pat (Some c) s"
  proof (cases u)
    case Nil
    with uwr show ?thesis by auto
  next
    case (Cons a u')
    with uwr have "s = u' @ w @ r" "accepts U pat (last_of (Some c) u') w r"
      using last_of_append [of prev "[c]" u'] by auto
    then show ?thesis by (auto simp: occurs_def)
  qed
next
  assume "(\<exists>w r. c # s = w @ r \<and> accepts U pat prev w r) \<or> occurs U pat (Some c) s"
  then show "occurs U pat prev (c # s)"
  proof
    assume "\<exists>w r. c # s = w @ r \<and> accepts U pat prev w r"
    then obtain w r where "c # s = [] @ w @ r" "accepts U pat (last_of prev []) w r" by auto
    then show ?thesis unfolding occurs_def by blast
  next
    assume "occurs U pat (Some c) s"
    then obtain u w r where "s = u @ w @ r" "accepts U pat (last_of (Some c) u) w r"
      by (auto simp: occurs_def)
    then have "c # s = (c # u) @ w @ r" "accepts U pat (last_of prev (c # u)) w r"
      using last_of_append [of prev "[c]" u] by auto
    then show ?thesis unfolding occurs_def by blast
  qed
qed

lemma occurs_after:
  assumes "w \<noteq> []" and "occurs U pat (Some (last w)) s"
  shows "occurs U pat prev (w @ s)"
proof -
  from assms(2) obtain u x r where "s = u @ x @ r" "accepts U pat (last_of (Some (last w)) u) x r"
    by (auto simp: occurs_def)
  with assms(1) have "w @ s = (w @ u) @ x @ r" "accepts U pat (last_of prev (w @ u)) x r"
    by (simp_all add: last_of_append last_of_nonempty)
  then show ?thesis unfolding occurs_def by blast
qed

lemma token_skip:
  assumes wd: "well_delimited U pat" and oc: "occurs U pat prev (redacted @ out)"
  shows "occurs U pat (Some (ord CHR '']'')) out"
proof -
  from oc obtain u w r where uwr: "redacted @ out = u @ w @ r" "accepts U pat (last_of prev u) w r"
    by (auto simp: occurs_def)
  from uwr(1) obtain us where
    "redacted @ us = u \<and> out = us @ w @ r \<or> redacted = u @ us \<and> us @ out = w @ r"
    by (auto simp: append_eq_append_conv2)
  then show ?thesis
  proof
    assume "redacted @ us = u \<and> out = us @ w @ r"
    with uwr(2) have "out = us @ w @ r" "accepts U pat (last_of (Some (ord CHR '']'')) us) w r"
      using last_of_redacted [of prev us] by auto
    then show ?thesis unfolding occurs_def by blast
  next
    assume c: "redacted = u @ us \<and> us @ out = w @ r"
    show ?thesis
    proof (cases "us = []")
      case True
      with c uwr(2) have "out = [] @ w @ r" "accepts U pat (last_of (Some (ord CHR '']'')) []) w r"
        using last_of_redacted [of prev "[]"] by auto
      then show ?thesis unfolding occurs_def by blast
    next
      case False
      with token_free [OF wd uwr(2), of us out u] c show ?thesis by auto
    qed
  qed
qed

lemma occurs_transfer:
  assumes "redaction_of U th P prev s out" and "\<forall>pat\<in>P. well_delimited U pat"
    and "well_delimited U pat'" and "occurs U pat' prev' out"
    and "at_boundary U (prev', s) \<longrightarrow> at_boundary U (prev, s)"
  shows "occurs U pat' prev s"
  using assms(1,4,5)
proof (induction arbitrary: prev' rule: redaction_of.induct)
  case (rd_end prev)
  with assms(3) show ?case by (simp add: occurs_Nil)
next
  case (rd_keep prev c s out)
  from rd_keep.prems(1) consider
    (here) w r' where "c # out = w @ r'" "accepts U pat' prev' w r'"
  | (later) "occurs U pat' (Some c) out"
    by (auto simp: occurs_Cons)
  then show ?case
  proof cases
    case here
    have "redaction_of U th P prev (c # s) (w @ r')"
      using redaction_of.rd_keep [OF rd_keep.hyps] here(1) by simp
    from occurrence_transfer [OF this assms(2,3) here(2) rd_keep.prems(2)]
    show ?thesis by (auto simp: occurs_Cons)
  next
    case later
    from rd_keep.IH [OF later] show ?thesis by (simp add: occurs_Cons)
  qed
next
  case (rd_replace pat w prev s out)
  from token_skip [OF assms(3) rd_replace.prems(1)] have "occurs U pat' (Some (ord CHR '']'')) out" .
  moreover from rd_replace.hyps assms(2) have "at_boundary U (Some (last w), s)"
    using well_delimitedD [of U pat prev w s] by simp
  ultimately have "occurs U pat' (Some (last w)) s" using rd_replace.IH by blast
  with rd_replace.hyps(2) show ?case by (rule occurs_after)
qed

lemma sub_from_no_occurrence:
  assumes wd: "well_delimited U pat"
  shows "(at_boundary U (prev', s) \<longrightarrow> at_boundary U (prev, s)) \<Longrightarrow>
         \<not> occurs U pat prev' (sub_from U pat redacted (prev, s))"
proof (induction "length s" arbitrary: prev prev' s rule: less_induct)
  case less
  show ?case
  proof (rule sub_from_cases [OF wd, of s prev])
    assume "s = []" "sub_from U pat redacted (prev, s) = []"
    with wd show ?thesis by (simp add: occurs_Nil)
  next
    fix c cs
    assume s: "s = c # cs"
      and out: "sub_from U pat redacted (prev, s) = c # sub_from U pat redacted (Some c, cs)"
      and none: "\<And>w r. s = w @ r \<Longrightarrow> \<not> accepts U pat prev w r"
    show ?thesis
    proof
      assume "occurs U pat prev' (sub_from U pat redacted (prev, s))"
      then consider
        (here) w r' where "c # sub_from U pat redacted (Some c, cs) = w @ r'" "accepts U pat prev' w r'"
      | (later) "occurs U pat (Some c) (sub_from U pat redacted (Some c, cs))"
        unfolding out by (auto simp: occurs_Cons)
      then show False
      proof cases
        case here
        have "redaction_of U th {pat} prev s (w @ r')"
          using sub_from_redaction_of [OF wd, of th prev s] out here(1) by simp
        from occurrence_transfer [OF this _ wd here(2) less.prems] wd none
        show False by auto
      next
        case later
        with less.hyps [of cs "Some c" "Some c"] s show False by simp
      qed
    qed
  next
    fix w r
    assume s: "s = w @ r" "w \<noteq> []" and a: "accepts U pat prev w r"
      and out: "sub_from U pat redacted (prev, s) =
                  redacted @ sub_from U pat redacted (Some (last w), r)"
    from well_delimitedD [OF wd a] have b: "at_boundary U (Some (last w), r)" by simp
    show ?thesis
    proof
      assume "occurs U pat prev' (sub_from U pat redacted (prev, s))"
      with out have "occurs U pat (Some (ord CHR '']'')) (sub_from U pat redacted (Some (last w), r))"
        using token_skip [OF wd] by simp
      with less.hyps [of r "Some (ord CHR '']'')" "Some (last w)"] s b show False by simp
    qed
  qed
qed

lemma sub_from_identity:
  "\<not> occurs U pat prev s \<Longrightarrow> sub_from U pat repl (prev, s) = s"
proof (induction s arbitrary: prev)
  case Nil
  have "search_at U pat (prev, []) = None"
  proof (cases "search_at U pat (prev, [])")
    case (Some q)
    from search_at_Some [OF this] Nil have False by (auto simp: occurs_def)
    then show ?thesis ..
  qed simp
  then show ?case by (simp add: sub_from.simps)
next
  case (Cons c s)
  have "search_at U pat (prev, c # s) = None"
  proof (cases "search_at U pat (prev, c # s)")
    case (Some q)
    from search_at_Some [OF this] Cons.prems have False by (auto simp: occurs_Cons)
    then show ?thesis ..
  qed simp
  moreover from Cons.prems have "\<not> occurs U pat (Some c) s" by (simp add: occurs_Cons)
  ultimately show ?case using Cons.IH [of "Some c"] by (simp add: sub_from.simps)
qed







lemma ascii_digit_local: "ascii_digit c \<Longrightarrow> local_cls c"
  by (simp add: local_cls_def)











lemma match_items_consumes:
  assumes "well_delimited U pat" and "q \<in> set (match_items U pat (prev, s))"
  shows "length (snd q) < length s"
proof -
  from assms(2) obtain w r where "s = w @ r" "accepts U pat prev w r" "q = (last_of prev w, r)"
    unfolding match_items_accepts by blast
  with well_delimitedD [OF assms(1), of prev w r] show ?thesis by simp
qed

lemma re_sub_redaction_of:
  "well_delimited U pat \<Longrightarrow> redaction_of U th {pat} None text (re_sub U pat redacted text)"
  by (simp add: re_sub_def sub_from_redaction_of)

lemma re_sub_no_occurrence:
  "well_delimited U pat \<Longrightarrow> \<not> occurs U pat None (re_sub U pat redacted text)"
  by (simp add: re_sub_def sub_from_no_occurrence)

lemma re_sub_keeps_clean:
  assumes "well_delimited U pat" and "well_delimited U pat'" and "\<not> occurs U pat' None text"
  shows "\<not> occurs U pat' None (re_sub U pat redacted text)"
proof
  assume "occurs U pat' None (re_sub U pat redacted text)"
  from occurs_transfer [OF re_sub_redaction_of [OF assms(1)] _ assms(2) this] assms(1,3)
  show False by simp
qed

lemma redact_unfold:
  "redact_sensitive_info U text =
     re_sub U ssn_pattern redacted (re_sub U phone_pattern redacted (re_sub U email_pattern redacted text))"
  by (simp add: redact_sensitive_info_def sensitive_patterns_def)

lemma redact_no_occurrence:
  "\<not> occurs U email_pattern None (redact_sensitive_info U text)"
  "\<not> occurs U phone_pattern None (redact_sensitive_info U text)"
  "\<not> occurs U ssn_pattern None (redact_sensitive_info U text)"
  unfolding redact_unfold
  by (intro re_sub_keeps_clean re_sub_no_occurrence well_delimited_email well_delimited_phone
        well_delimited_ssn)+

lemma re_sub_identity: "\<not> occurs U pat None text \<Longrightarrow> re_sub U pat repl text = text"
  by (simp add: re_sub_def sub_from_identity)



lemma redact_unicode_examples:
  "redact_sensitive_info latin_fullwidth (0xE9 # str ''1234567890'') = 0xE9 # str ''1234567890''"
  "redact_sensitive_info latin_fullwidth (0xE9 # str ''.a@b.cd'') = 0xE9 # str ''[REDACTED]''"
  "redact_sensitive_info latin_fullwidth ([0xFF11, 0xFF12, 0xFF13] @ str ''-45-6789@x.com'') =
     [0xFF11, 0xFF12, 0xFF13] @ str ''[REDACTED]''"
  "redact_sensitive_info latin_fullwidth ([0xFF11, 0xFF12, 0xFF13] @ str ''[REDACTED]'') =
     [0xFF11, 0xFF12, 0xFF13] @ str ''[REDACTED]''"
  by (simp_all add: regex_eval)





text \<open>
  C9. Redaction is idempotent: redacting a redacted text changes nothing, because the
  result of a redaction holds no occurrence of any of the three patterns.
\<close>

theorem redact_idempotent:
  "redact_sensitive_info U (redact_sensitive_info U text) = redact_sensitive_info U text"
proof -
  let ?t = "redact_sensitive_info U text"
  have "re_sub U email_pattern redacted ?t = ?t"
    by (rule re_sub_identity) (rule redact_no_occurrence)
  moreover have "re_sub U phone_pattern redacted ?t = ?t"
    by (rule re_sub_identity) (rule redact_no_occurrence)
  moreover have "re_sub U ssn_pattern redacted ?t = ?t"
    by (rule re_sub_identity) (rule redact_no_occurrence)
  ultimately show ?thesis by (simp add: redact_unfold [of U ?t])
qed

theorem redact_idempotent_witness:
  "redact_sensitive_info latin_fullwidth ([0xFF11, 0xFF12, 0xFF13] @ str ''[REDACTED]'') =
     [0xFF11, 0xFF12, 0xFF13] @ str ''[REDACTED]''"
  using redact_idempotent [of latin_fullwidth "[0xFF11, 0xFF12, 0xFF13] @ str ''-45-6789@x.com''"]
  unfolding redact_unicode_examples(3) .

end
